theory Spec2Isabelle
  imports
    Complex_Main
    "HOL-Library.Sublist"
    "HOL-Library.Multiset"
    "HOL-Library.Char_ord"
    "HOL-Library.List_Lexorder"
    "HOL-Library.Product_Lexorder"
    "HOL-Library.Log_Nat"
begin

section \<open>The QAT telemetry monitor (\<^verbatim>\<open>monitor_qat.py\<close>)\<close>

text \<open>
  A shallow embedding of \<^verbatim>\<open>src/jmh/qat-java-bench/monitor_qat.py\<close>. The script keeps three
  global lists (\<^verbatim>\<open>devices\<close>, \<^verbatim>\<open>paths\<close>, \<^verbatim>\<open>set_paths\<close>), rebuilds them in
  \<^verbatim>\<open>EnableTelemetry\<close> from the output of two shell commands, and renders one row per device
  in the endless loop of \<^verbatim>\<open>pbar\<close>.

  Conventions of the embedding.
  \<^item> A Python \<^verbatim>\<open>str\<close> is a \<^typ>\<open>string\<close>; one \<^typ>\<open>char\<close> stands for one code point below 256
    (the tools whose output is read print ASCII).
  \<^item> An exception is a value of \<open>py_error\<close>. A function that can raise and changes no state
    returns \<open>py_error + 'a\<close>; a function that changes state returns the exception, if any,
    next to the state reached when it was raised.
  \<^item> The shell is a parameter: \<open>sh n c\<close> is the exit status and standard output of command
    \<open>c\<close> when it is the \<open>n\<close>-th command the process runs. The window of the curses library
    is a log of the calls made on it; its calls are taken not to raise.
\<close>

subsection \<open>Python values and exceptions\<close>

datatype py_error =
    IndexError | TypeError | ValueError | UnboundLocalError
  | ZeroDivisionError | OverflowError | CalledProcessError | SystemExit

text \<open>\<^verbatim>\<open>xs[i]\<close> for a non-negative index.\<close>

definition item :: "'a list \<Rightarrow> nat \<Rightarrow> py_error + 'a" where
  "item xs i = (if i < length xs then Inr (xs ! i) else Inl IndexError)"

text \<open>\<^verbatim>\<open>s[5:7]\<close>: a slice never raises; it is cut short where the string ends.\<close>

definition slice_5_7 :: "string \<Rightarrow> string" where
  "slice_5_7 s = take 2 (drop 5 s)"

text \<open>
  \<^verbatim>\<open>a in b\<close> for two strings is \<^term>\<open>sublist a b\<close>. When the left operand is \<^verbatim>\<open>None\<close>
  Python raises \<^verbatim>\<open>TypeError\<close>.
\<close>

definition py_in :: "string option \<Rightarrow> string \<Rightarrow> py_error + bool" where
  "py_in a b = (case a of None \<Rightarrow> Inl TypeError | Some s \<Rightarrow> Inr (sublist s b))"

text \<open>\<^verbatim>\<open>a + b\<close> where \<^verbatim>\<open>a\<close> may be \<^verbatim>\<open>None\<close> and \<^verbatim>\<open>b\<close> is a string.\<close>

definition py_concat :: "string option \<Rightarrow> string \<Rightarrow> py_error + string" where
  "py_concat a b = (case a of None \<Rightarrow> Inl TypeError | Some s \<Rightarrow> Inr (s @ b))"

text \<open>\<^verbatim>\<open>s.split(c)\<close> for a one-character separator: never empty.\<close>

fun split_on :: "char \<Rightarrow> string \<Rightarrow> string list" where
  "split_on c [] = [[]]"
| "split_on c (x # xs) =
     (if x = c then [] # split_on c xs
      else (case split_on c xs of [] \<Rightarrow> [[x]] | w # ws \<Rightarrow> (x # w) # ws))"

text \<open>
  \<^verbatim>\<open>s.split()\<close>: the maximal runs of characters that are not whitespace. The whitespace
  code points below 256 are 9 to 13, 28 to 32, 133 and 160.
\<close>

definition isspace :: "char \<Rightarrow> bool" where
  "isspace c = (let n = (of_char c :: nat) in
     (9 \<le> n \<and> n \<le> 13) \<or> (28 \<le> n \<and> n \<le> 32) \<or> n = 133 \<or> n = 160)"

fun split_run :: "string \<Rightarrow> string \<Rightarrow> string list" where
  "split_run cur [] = (if cur = [] then [] else [cur])"
| "split_run cur (c # cs) =
     (if isspace c then (if cur = [] then split_run [] cs else cur # split_run [] cs)
      else split_run (cur @ [c]) cs)"

definition split :: "string \<Rightarrow> string list" where
  "split s = split_run [] s"

subsection \<open>The device inventory (lines 44 to 69)\<close>

text \<open>
  A device record is the tuple \<^verbatim>\<open>(name, bus)\<close>; either component is \<^verbatim>\<open>None\<close> when the
  status output gave no such token before the \<^verbatim>\<open>state:\<close> token.
\<close>

type_synonym device = "string option \<times> string option"

text \<open>
  The local variables of the scan. (The variable \<^verbatim>\<open>state\<close> of the source is written and
  never read; it is left out.)
\<close>

record scan =
  name :: "string option"
  bus :: "string option"
  telemetry_supported :: bool

definition scan_init :: scan where
  "scan_init = \<lparr>name = None, bus = None, telemetry_supported = False\<rparr>"

text \<open>
  One turn of the \<^verbatim>\<open>while\<close> loop at index \<open>i\<close>, before \<^verbatim>\<open>i += 1\<close>. The token after the
  current one is read with \<^verbatim>\<open>output_adf[i+1]\<close>, which raises when the current token is the
  last.
\<close>

definition scan_step ::
  "string list \<Rightarrow> nat \<Rightarrow> scan \<times> device list \<Rightarrow> py_error + scan \<times> device list" where
  "scan_step toks i s =
     (case s of (v, devs) \<Rightarrow>
       if sublist ''qat_dev'' (toks ! i) then Inr (v\<lparr>name := Some (toks ! i)\<rparr>, devs)
       else if ''type:'' = toks ! i then
         (case item toks (i + 1) of
            Inl e \<Rightarrow> Inl e
          | Inr t \<Rightarrow> Inr (if ''4xxx,'' = t then v\<lparr>telemetry_supported := True\<rparr> else v, devs))
       else if ''bsf:'' = toks ! i then
         (case item toks (i + 1) of
            Inl e \<Rightarrow> Inl e
          | Inr t \<Rightarrow> Inr (v\<lparr>bus := Some (slice_5_7 t)\<rparr>, devs))
       else if ''state:'' = toks ! i then
         (case item toks (i + 1) of
            Inl e \<Rightarrow> Inl e
          | Inr t \<Rightarrow>
              Inr (scan_init,
                   if ''up'' = t \<and> telemetry_supported v then devs @ [(name v, bus v)]
                   else devs))
       else Inr (v, devs))"

text \<open>
  The loop from index \<open>i\<close>. The result is the exception raised, if any, and the global
  list \<^verbatim>\<open>devices\<close> as it stands then.
\<close>

function scan_loop ::
  "string list \<Rightarrow> nat \<Rightarrow> scan \<times> device list \<Rightarrow> py_error option \<times> device list" where
  "scan_loop toks i s =
     (if i < length toks then
        (case scan_step toks i s of
           Inl e \<Rightarrow> (Some e, snd s)
         | Inr s' \<Rightarrow> scan_loop toks (i + 1) s')
      else (None, snd s))"
  by pat_completeness auto
termination
  by (relation "measure (\<lambda>(toks, i, s). length toks - i)") auto

declare scan_loop.simps [simp del]

text \<open>\<^verbatim>\<open>devices.clear()\<close> and the scan of the whole token list.\<close>

definition build_devices :: "string list \<Rightarrow> py_error option \<times> device list" where
  "build_devices output_adf = scan_loop output_adf 0 (scan_init, [])"

subsection \<open>The telemetry paths (lines 41 and 42)\<close>

text \<open>
  \<^verbatim>\<open>sorted(original_array, key=lambda x: (x.split(':')[1], 16))\<close>. The key of every element
  is computed before anything is compared, so one path without a colon raises
  \<^verbatim>\<open>IndexError\<close>. The sort is stable, as \<^const>\<open>sort_key\<close> is; strings compare by code
  point, tuples lexicographically.
\<close>

definition path_key :: "string \<Rightarrow> py_error + string \<times> nat" where
  "path_key x = (case item (split_on CHR '':'' x) 1 of Inl e \<Rightarrow> Inl e | Inr k \<Rightarrow> Inr (k, 16))"

definition sort_paths :: "string list \<Rightarrow> py_error + string list" where
  "sort_paths original_array =
     (if list_ex (\<lambda>x. path_key x = Inl IndexError) original_array then Inl IndexError
      else Inr (sort_key (\<lambda>x. (split_on CHR '':'' x ! 1, 16 :: nat)) original_array))"

subsection \<open>The correlation of paths and devices (lines 77 to 84)\<close>

text \<open>
  The inner \<^verbatim>\<open>while i < len(devices)\<close> for one path, from index \<open>i\<close>; \<open>sp\<close> is the global
  list \<^verbatim>\<open>set_paths\<close>. The test \<^verbatim>\<open>devices[i][1] in path\<close> raises when the bus is \<^verbatim>\<open>None\<close>.
\<close>

function match_devices ::
  "device list \<Rightarrow> string \<Rightarrow> nat \<Rightarrow> string list \<Rightarrow> py_error option \<times> string list" where
  "match_devices devs path i sp =
     (if i < length devs then
        (case py_in (snd (devs ! i)) path of
           Inl e \<Rightarrow> (Some e, sp)
         | Inr b \<Rightarrow> match_devices devs path (i + 1) (if b then sp @ [path] else sp))
      else (None, sp))"
  by pat_completeness auto
termination
  by (relation "measure (\<lambda>(devs, path, i, sp). length devs - i)") auto

declare match_devices.simps [simp del]

text \<open>The outer \<^verbatim>\<open>for path in paths\<close>; \<^verbatim>\<open>i\<close> is 0 at the start of every turn.\<close>

fun correlate ::
  "string list \<Rightarrow> device list \<Rightarrow> string list \<Rightarrow> py_error option \<times> string list" where
  "correlate [] devs sp = (None, sp)"
| "correlate (path # rest) devs sp =
     (case match_devices devs path 0 sp of
        (Some e, sp') \<Rightarrow> (Some e, sp')
      | (None, sp') \<Rightarrow> correlate rest devs sp')"

subsection \<open>The process state and its surroundings\<close>

text \<open>
  What the process does to the outside, in order: the shell commands it runs, the lines
  it prints on standard output and on standard error, and the calls on the curses window.
\<close>

datatype event =
    Run string
  | Print string
  | Stderr string
  | Addstr nat nat string
  | Refresh
  | Clear
  | Sleep nat

text \<open>
  The three global lists, the number of shell commands run so far and the events so far.
\<close>

record world =
  devices :: "device list"
  paths :: "string list"
  set_paths :: "string list"
  clock :: nat
  trace :: "event list"

definition world_init :: world where
  "world_init = \<lparr>devices = [], paths = [], set_paths = [], clock = 0, trace = []\<rparr>"

type_synonym shell = "nat \<Rightarrow> string \<Rightarrow> int \<times> string"

text \<open>
  One shell command: \<^verbatim>\<open>subprocess.Popen(command, shell=True, ...)\<close> with \<^verbatim>\<open>wait\<close> and
  \<^verbatim>\<open>communicate\<close>, or \<^verbatim>\<open>subprocess.check_output\<close>. The result is the exit status and the
  standard output.
\<close>

definition run :: "shell \<Rightarrow> string \<Rightarrow> world \<Rightarrow> (int \<times> string) \<times> world" where
  "run sh command w =
     (sh (clock w) command, w\<lparr>clock := clock w + 1, trace := trace w @ [Run command]\<rparr>)"

definition emit :: "event \<Rightarrow> world \<Rightarrow> world" where
  "emit ev w = w\<lparr>trace := trace w @ [ev]\<rparr>"

subsection \<open>\<^verbatim>\<open>EnableTelemetry\<close> (lines 13 to 98)\<close>

text \<open>
  The loop that enables telemetry (lines 91 to 98). \<^verbatim>\<open>check_output\<close> raises when the
  command's exit status is not 0, and the handler is \<^verbatim>\<open>except: break\<close>.
\<close>

fun enable_loop :: "shell \<Rightarrow> string list \<Rightarrow> world \<Rightarrow> world" where
  "enable_loop sh [] w = w"
| "enable_loop sh (path # rest) w =
     (let control_file_name = path @ ''/control'';
          command = ''echo 1 > '' @ control_file_name;
          (r, w') = run sh command w
      in if fst r \<noteq> 0 then w' else enable_loop sh rest w')"

definition adf_command :: string where
  "adf_command = ''adf_ctl status''"

definition find_command :: string where
  "find_command = ''find /sys/devices/ -name '' @ [CHR 0x22] @ ''telemetry'' @ [CHR 0x22]"

definition no_endpoints_message :: string where
  "no_endpoints_message = ''No telemetry supported QAT endpoints found... exiting.''"

text \<open>
  The whole function. \<^verbatim>\<open>print\<close> writes on standard output; \<^verbatim>\<open>quit()\<close> raises
  \<^verbatim>\<open>SystemExit\<close> with no exit code.
\<close>

definition EnableTelemetry :: "shell \<Rightarrow> world \<Rightarrow> py_error option \<times> world" where
  "EnableTelemetry sh w0 =
     (let w1 = w0\<lparr>devices := []\<rparr>;
          (r1, w2) = run sh adf_command w1;
          output_adf = split (snd r1);
          w3 = w2\<lparr>paths := []\<rparr>;
          (r2, w4) = run sh find_command w3;
          original_array = split (snd r2)
      in case sort_paths original_array of
           Inl e \<Rightarrow> (Some e, w4)
         | Inr output_telem \<Rightarrow>
             (case build_devices output_adf of
                (Some e, devs) \<Rightarrow> (Some e, w4\<lparr>devices := devs\<rparr>)
              | (None, devs) \<Rightarrow>
                  (let w5 = w4\<lparr>devices := devs, paths := output_telem\<rparr> in
                   case correlate (paths w5) (devices w5) [] of
                     (Some e, sp) \<Rightarrow> (Some e, w5\<lparr>set_paths := sp\<rparr>)
                   | (None, sp) \<Rightarrow>
                       (let w6 = w5\<lparr>set_paths := sp\<rparr> in
                        if length (set_paths w6) = 0
                        then (Some SystemExit, emit (Print no_endpoints_message) w6)
                        else (None, enable_loop sh (set_paths w6) w6)))))"

subsection \<open>Integers and floats\<close>

text \<open>
  \<^verbatim>\<open>int(s)\<close> for a string: surrounding whitespace is dropped, a sign may come first, then
  decimal digits, with single underscores allowed between digits; anything else raises
  \<^verbatim>\<open>ValueError\<close>.
\<close>

definition is_digit :: "char \<Rightarrow> bool" where
  "is_digit c = (48 \<le> (of_char c :: nat) \<and> (of_char c :: nat) \<le> 57)"

definition digit_val :: "char \<Rightarrow> nat" where
  "digit_val c = of_char c - 48"

fun parse_digits :: "nat \<Rightarrow> string \<Rightarrow> nat option" where
  "parse_digits acc [] = Some acc"
| "parse_digits acc (c # cs) =
     (if is_digit c then parse_digits (10 * acc + digit_val c) cs
      else if c = CHR ''_'' then
        (case cs of
           [] \<Rightarrow> None
         | d # ds \<Rightarrow> if is_digit d then parse_digits (10 * acc + digit_val d) ds else None)
      else None)"

definition strip :: "string \<Rightarrow> string" where
  "strip s = rev (dropWhile isspace (rev (dropWhile isspace s)))"

definition py_int :: "string \<Rightarrow> py_error + int" where
  "py_int s =
     (let t = strip s;
          (neg, body) =
            (case t of
               [] \<Rightarrow> (False, t)
             | c # cs \<Rightarrow> if c = CHR ''-'' then (True, cs)
                         else if c = CHR ''+'' then (False, cs) else (False, t))
      in case body of
           [] \<Rightarrow> Inl ValueError
         | c # cs \<Rightarrow>
             if is_digit c then
               (case parse_digits (digit_val c) cs of
                  None \<Rightarrow> Inl ValueError
                | Some n \<Rightarrow> Inr (if neg then - int n else int n))
             else Inl ValueError)"

text \<open>\<^verbatim>\<open>str(n)\<close> for an integer.\<close>

fun str_nat :: "nat \<Rightarrow> string" where
  "str_nat n = (if n < 10 then [char_of (48 + n)] else str_nat (n div 10) @ [char_of (48 + n mod 10)])"

definition str :: "int \<Rightarrow> string" where
  "str n = (if n < 0 then CHR ''-'' # str_nat (nat (- n)) else str_nat (nat n))"

text \<open>
  A float is modelled by the rational number it denotes. \<^verbatim>\<open>round(x)\<close> with one argument
  rounds to the nearest integer, a tie to the even one.
\<close>

definition round_half_even :: "rat \<Rightarrow> int" where
  "round_half_even x =
     (let f = \<lfloor>x\<rfloor>; r = x - of_int f
      in if r < 1 / 2 then f else if 1 / 2 < r then f + 1 else if even f then f else f + 1)"

text \<open>
  \<^verbatim>\<open>a / b\<close> for two integers is the double nearest to the quotient (a tie goes to the
  even significand), or \<^verbatim>\<open>OverflowError\<close> when that is beyond the doubles. For \<open>x > 0\<close>,
  \<open>floor_log2 x\<close> is the \<open>e\<close> with \<open>2 powi e \<le> x < 2 powi (e + 1)\<close>; a double with that
  exponent is a multiple of \<open>2 powi (e - 52)\<close>, and exponents below \<open>- 1022\<close> share the
  spacing of \<open>- 1022\<close>.
\<close>

definition floor_log2 :: "rat \<Rightarrow> int" where
  "floor_log2 x =
     (let (a, b) = quotient_of x; d = bitlen a - bitlen b
      in if 2 powi d \<le> x then d else d - 1)"

definition binary64 :: "rat \<Rightarrow> py_error + rat" where
  "binary64 x =
     (if x = 0 then Inr 0
      else
        (let e = max (floor_log2 \<bar>x\<bar>) (- 1022);
             u = 2 powi (e - 52);
             y = of_int (round_half_even (\<bar>x\<bar> / u)) * u
         in if 2 powi 1024 \<le> y then Inl OverflowError else Inr (sgn x * y)))"

definition truediv :: "int \<Rightarrow> int \<Rightarrow> py_error + rat" where
  "truediv a b = (if b = 0 then Inl ZeroDivisionError else binary64 (of_int a / of_int b))"

subsection \<open>One counter dump (lines 128 to 173)\<close>

text \<open>
  The parsed counters are local variables of \<^verbatim>\<open>pbar\<close>, assigned in the loop over the
  tokens of a dump and read after it. A local variable that was never assigned is unbound,
  and reading it raises \<^verbatim>\<open>UnboundLocalError\<close>; the store maps the name of a variable to
  its value.
\<close>

type_synonym locals = "string \<rightharpoonup> string"

text \<open>
  The \<^verbatim>\<open>if\<close>/\<^verbatim>\<open>elif\<close> chain of lines 131 to 172 compares the token with 21 different keys
  and assigns the next token to the variable of the key that matches; as the keys differ,
  the chain is a lookup in this table (key, variable).
\<close>

definition counter_vars :: "(string \<times> string) list" where
  "counter_vars =
     [(''lat_acc_avg'', ''latency''), (''util_cpr0'', ''compression''),
      (''util_dcpr0'', ''decompression0''), (''util_dcpr1'', ''decompression1''),
      (''util_dcpr2'', ''decompression2''),
      (''util_pke0'', ''pke0''), (''util_pke1'', ''pke1''), (''util_pke2'', ''pke2''),
      (''util_pke3'', ''pke3''), (''util_pke4'', ''pke4''), (''util_pke5'', ''pke5''),
      (''util_cph0'', ''cph0''), (''util_cph1'', ''cph1''), (''util_cph2'', ''cph2''),
      (''util_cph3'', ''cph3''),
      (''util_ath0'', ''ath0''), (''util_ath1'', ''ath1''), (''util_ath2'', ''ath2''),
      (''util_ath3'', ''ath3''),
      (''util_ucs0'', ''ucs0''), (''util_ucs1'', ''ucs1'')]"

text \<open>One turn of \<^verbatim>\<open>while i < len(output)\<close> at index \<open>i\<close>, and the loop from \<open>i\<close>.\<close>

definition parse_step :: "string list \<Rightarrow> nat \<Rightarrow> locals \<Rightarrow> py_error + locals" where
  "parse_step output i vs =
     (case map_of counter_vars (output ! i) of
        None \<Rightarrow> Inr vs
      | Some x \<Rightarrow> (case item output (i + 1) of Inl e \<Rightarrow> Inl e | Inr t \<Rightarrow> Inr (vs(x \<mapsto> t))))"

function parse_loop :: "string list \<Rightarrow> nat \<Rightarrow> locals \<Rightarrow> py_error option \<times> locals" where
  "parse_loop output i vs =
     (if i < length output then
        (case parse_step output i vs of
           Inl e \<Rightarrow> (Some e, vs)
         | Inr vs' \<Rightarrow> parse_loop output (i + 1) vs')
      else (None, vs))"
  by pat_completeness auto
termination
  by (relation "measure (\<lambda>(output, i, vs). length output - i)") auto

declare parse_loop.simps [simp del]

subsection \<open>One row (lines 175 to 198)\<close>

text \<open>
  Reading a variable, \<^verbatim>\<open>int(x)\<close> of a variable, and \<^verbatim>\<open>int(a) + int(b) + ...\<close>, evaluated
  from the left: the first operand that raises decides the exception.
\<close>

definition read_var :: "locals \<Rightarrow> string \<Rightarrow> py_error + string" where
  "read_var vs x = (case vs x of None \<Rightarrow> Inl UnboundLocalError | Some t \<Rightarrow> Inr t)"

definition int_var :: "locals \<Rightarrow> string \<Rightarrow> py_error + int" where
  "int_var vs x = (case read_var vs x of Inl e \<Rightarrow> Inl e | Inr t \<Rightarrow> py_int t)"

fun sum_vars :: "locals \<Rightarrow> string list \<Rightarrow> py_error + int" where
  "sum_vars vs [] = Inr 0"
| "sum_vars vs (x # xs) =
     (case int_var vs x of
        Inl e \<Rightarrow> Inl e
      | Inr n \<Rightarrow> (case sum_vars vs xs of Inl e \<Rightarrow> Inl e | Inr m \<Rightarrow> Inr (n + m)))"

text \<open>
  Lines 176 to 178 and their four copies, where \<open>n\<close> is the literal divisor:
  \<^verbatim>\<open>if u > 0: u = u / n; u = round(u)\<close>.
\<close>

definition utilization :: "int \<Rightarrow> int \<Rightarrow> py_error + int" where
  "utilization amount n =
     (if amount > 0 then
        (case truediv amount n of Inl e \<Rightarrow> Inl e | Inr q \<Rightarrow> Inr (round_half_even q))
      else Inr amount)"

text \<open>
  One category: the sum of its variables, then the lines above. The divisor written in the
  source is the number of variables of the category (3, 6, 4, 4 and 2).
\<close>

definition category :: "locals \<Rightarrow> string list \<Rightarrow> py_error + int" where
  "category vs xs =
     (case sum_vars vs xs of Inl e \<Rightarrow> Inl e | Inr amount \<Rightarrow> utilization amount (int (length xs)))"

text \<open>The variables of the five categories.\<close>

definition decompress_vars :: "string list" where
  "decompress_vars = [''decompression0'', ''decompression1'', ''decompression2'']"

definition pke_vars :: "string list" where
  "pke_vars = [''pke0'', ''pke1'', ''pke2'', ''pke3'', ''pke4'', ''pke5'']"

definition cph_vars :: "string list" where
  "cph_vars = [''cph0'', ''cph1'', ''cph2'', ''cph3'']"

definition ath_vars :: "string list" where
  "ath_vars = [''ath0'', ''ath1'', ''ath2'', ''ath3'']"

definition ucs_vars :: "string list" where
  "ucs_vars = [''ucs0'', ''ucs1'']"

definition tab :: string where
  "tab = [CHR 0x09]"

definition placeholder :: string where
  "placeholder = tab @ ''0'' @ tab @ ''0'' @ tab @ ''0'' @ tab @ ''0'' @ tab @ ''0'' @ tab @ ''00''
     @ replicate 17 CHR '' ''"

text \<open>The five aggregated values, computed in the order of the source.\<close>

record snapshot =
  decompress_utilization :: int
  pke_utilization :: int
  cph_utilization :: int
  ath_utilization :: int
  usc_utilization :: int

definition aggregate :: "locals \<Rightarrow> py_error + snapshot" where
  "aggregate vs =
     (case category vs decompress_vars of Inl e \<Rightarrow> Inl e | Inr d \<Rightarrow>
      case category vs pke_vars of Inl e \<Rightarrow> Inl e | Inr p \<Rightarrow>
      case category vs cph_vars of Inl e \<Rightarrow> Inl e | Inr c \<Rightarrow>
      case category vs ath_vars of Inl e \<Rightarrow> Inl e | Inr a \<Rightarrow>
      case category vs ucs_vars of Inl e \<Rightarrow> Inl e | Inr u \<Rightarrow>
        Inr \<lparr>decompress_utilization = d, pke_utilization = p, cph_utilization = c,
             ath_utilization = a, usc_utilization = u\<rparr>)"

text \<open>
  The text of a row, as line 198 builds it; \<open>dt\<close> is \<^verbatim>\<open>device[0] + '\t'\<close>.
\<close>

definition row_text :: "string \<Rightarrow> string \<Rightarrow> snapshot \<Rightarrow> string \<Rightarrow> string" where
  "row_text dt compression u latency =
     dt @ compression @ tab @ str (decompress_utilization u) @ tab
       @ str (pke_utilization u) @ tab @ str (cph_utilization u) @ tab
       @ str (ath_utilization u) @ tab @ str (usc_utilization u) @ tab @ latency"

text \<open>
  Lines 175 to 198 for one device. When \<^verbatim>\<open>int(latency)\<close> is 0 a row of zeros is written
  first; the row of line 198 is then written at the same place. \<^verbatim>\<open>device[0]\<close> is \<^verbatim>\<open>None\<close>
  when the status output named no device, and \<^verbatim>\<open>None + str\<close> raises \<^verbatim>\<open>TypeError\<close>.
\<close>

definition render_row :: "device \<Rightarrow> nat \<Rightarrow> locals \<Rightarrow> world \<Rightarrow> py_error option \<times> world" where
  "render_row device cnt vs w =
     (case aggregate vs of Inl e \<Rightarrow> (Some e, w) | Inr u \<Rightarrow>
      case int_var vs ''latency'' of Inl e \<Rightarrow> (Some e, w) | Inr l \<Rightarrow>
      case (if l = 0
            then (case py_concat (fst device) placeholder of
                    Inl e \<Rightarrow> Inl e
                  | Inr t \<Rightarrow> Inr (emit (Addstr (4 + cnt) 10 t) w))
            else Inr w) of Inl e \<Rightarrow> (Some e, w) | Inr w1 \<Rightarrow>
      case py_concat (fst device) tab of Inl e \<Rightarrow> (Some e, w1) | Inr dt \<Rightarrow>
      case read_var vs ''compression'' of Inl e \<Rightarrow> (Some e, w1) | Inr compression \<Rightarrow>
      case read_var vs ''latency'' of Inl e \<Rightarrow> (Some e, w1) | Inr latency \<Rightarrow>
        (None, emit (Addstr (4 + cnt) 10 (row_text dt compression u latency)) w1))"

subsection \<open>\<^verbatim>\<open>pbar\<close> (lines 100 to 212)\<close>

text \<open>
  The body of \<^verbatim>\<open>for device in devices\<close> (lines 115 to 199): the dump of
  \<^verbatim>\<open>set_paths[count]\<close> is read and parsed into the local variables, then the row is
  written. The variables are those of \<^verbatim>\<open>pbar\<close>: they keep their values from one turn to
  the next.
\<close>

definition render_device ::
  "shell \<Rightarrow> device \<Rightarrow> nat \<Rightarrow> world \<times> locals \<Rightarrow> py_error option \<times> world \<times> locals" where
  "render_device sh device cnt s =
     (case s of (w, vs) \<Rightarrow>
        (case item (set_paths w) cnt of
           Inl e \<Rightarrow> (Some e, w, vs)
         | Inr p \<Rightarrow>
             (let command = ''cat '' @ p @ ''/device_data'';
                  (r, w1) = run sh command w;
                  output = split (snd r)
              in case parse_loop output 0 vs of
                   (Some e, vs1) \<Rightarrow> (Some e, w1, vs1)
                 | (None, vs1) \<Rightarrow>
                     (case render_row device cnt vs1 w1 of (e, w2) \<Rightarrow> (e, w2, vs1)))))"

fun render_devices ::
  "shell \<Rightarrow> device list \<Rightarrow> nat \<Rightarrow> world \<times> locals \<Rightarrow> py_error option \<times> (world \<times> locals) \<times> nat" where
  "render_devices sh [] cnt s = (None, s, cnt)"
| "render_devices sh (device # rest) cnt s =
     (case render_device sh device cnt s of
        (Some e, s') \<Rightarrow> (Some e, s', cnt)
      | (None, s') \<Rightarrow> render_devices sh rest (cnt + 1) s')"

text \<open>The fixed texts of the display.\<close>

definition title :: string where
  "title = ''Intel(R) QuickAssist Device Utilization''"

definition header :: string where
  "header = ''Device'' @ tab @ ''%Comp'' @ tab @ ''%Decomp'' @ tab @ ''%PKE'' @ tab @ ''%Cipher''
     @ tab @ ''%Auth'' @ tab @ ''%UCS'' @ tab @ ''Latency(ns)''"

definition rule_line :: string where
  "rule_line = replicate 73 CHR ''=''"

text \<open>
  The state of \<^verbatim>\<open>pbar\<close>: the globals, the local variables and \<^verbatim>\<open>refresh_counter\<close>.
\<close>

record pstate =
  globals :: world
  vars :: locals
  refresh_counter :: nat

text \<open>The three lines at the top of the display (lines 108 to 110).\<close>

definition draw_head :: "world \<Rightarrow> world" where
  "draw_head w =
     emit (Addstr 3 10 rule_line) (emit (Addstr 2 10 header) (emit (Addstr 0 10 title) w))"

text \<open>
  The body of \<^verbatim>\<open>while True\<close> inside \<^verbatim>\<open>try\<close> (lines 106 to 207). An exception it returns
  is the one the handlers catch; both handlers are \<^verbatim>\<open>break\<close>. No operator interrupt is
  modelled.
\<close>

definition tick :: "shell \<Rightarrow> pstate \<Rightarrow> py_error option \<times> pstate" where
  "tick sh s =
     (let s1 = s\<lparr>refresh_counter := refresh_counter s + 1\<rparr>;
          w3 = draw_head (globals s1)
      in case render_devices sh (devices w3) 0 (w3, vars s1) of
           (Some e, (w4, vs), cnt) \<Rightarrow> (Some e, s1\<lparr>globals := w4, vars := vs\<rparr>)
         | (None, (w4, vs), cnt) \<Rightarrow>
             (let w5 = emit (Addstr (4 + cnt) 10 rule_line) w4;
                  w6 = emit Refresh w5;
                  w7 = emit (Sleep 2) w6;
                  s2 = s1\<lparr>globals := w7, vars := vs\<rparr>
              in if refresh_counter s2 mod 5 = 0
                 then (case EnableTelemetry sh (emit Clear w7) of
                         (e, w8) \<Rightarrow> (e, s2\<lparr>globals := w8\<rparr>))
                 else (None, s2)))"

text \<open>
  The loop runs until a turn raises; \<^verbatim>\<open>break\<close> then ends \<^verbatim>\<open>pbar\<close>. A loop that never
  ends has the value \<^const>\<open>None\<close>.
\<close>

partial_function (option) pbar_loop :: "shell \<Rightarrow> pstate \<Rightarrow> pstate option" where
  "pbar_loop sh s = (case tick sh s of (Some e, s') \<Rightarrow> Some s' | (None, s') \<Rightarrow> pbar_loop sh s')"

declare pbar_loop.simps [code]

definition pbar :: "shell \<Rightarrow> world \<Rightarrow> pstate option" where
  "pbar sh w = pbar_loop sh \<lparr>globals = w, vars = Map.empty, refresh_counter = 0\<rparr>"

text \<open>
  The script (lines 215 to 217). The exit status is the interpreter's: an uncaught
  \<^verbatim>\<open>SystemExit\<close> without a code ends the process with status 0 and prints nothing; any
  other uncaught exception prints a traceback on standard error and the status is 1; a
  script that runs to its end has status 0. The result is \<^const>\<open>None\<close> when \<^verbatim>\<open>pbar\<close> never
  returns.
\<close>

definition traceback :: string where
  "traceback = ''Traceback (most recent call last):''"

definition main :: "shell \<Rightarrow> (int \<times> world) option" where
  "main sh =
     (case EnableTelemetry sh world_init of
        (Some e, w) \<Rightarrow>
          if e = SystemExit then Some (0, w) else Some (1, emit (Stderr traceback) w)
      | (None, w) \<Rightarrow> (case pbar sh w of None \<Rightarrow> None | Some s \<Rightarrow> Some (0, globals s)))"

subsection \<open>Notions used to state properties of the inventory\<close>

text \<open>
  The value of \<^verbatim>\<open>name\<close> after the tokens \<open>ts\<close> when none of them is \<^verbatim>\<open>state:\<close>: the last
  token that contains \<^verbatim>\<open>qat_dev\<close>.
\<close>

definition last_name :: "string list \<Rightarrow> string option" where
  "last_name ts =
     (case rev (filter (sublist ''qat_dev'') ts) of [] \<Rightarrow> None | x # xs \<Rightarrow> Some x)"

text \<open>
  A token list with one candidate that is up: its only \<^verbatim>\<open>state:\<close> token stands at index
  \<open>s\<close> and is followed by \<^verbatim>\<open>up\<close>; before it, \<^verbatim>\<open>type:\<close> at index \<open>t\<close> is followed by the
  supported type, and the last \<^verbatim>\<open>bsf:\<close> token, at index \<open>k\<close>, is followed by a token of at
  least seven characters.
\<close>

definition single_up_candidate :: "string list \<Rightarrow> nat \<Rightarrow> nat \<Rightarrow> nat \<Rightarrow> bool" where
  "single_up_candidate toks t k s \<longleftrightarrow>
     filter (\<lambda>j. toks ! j = ''state:'') [0..<length toks] = [s] \<and>
     s + 1 < length toks \<and> toks ! (s + 1) = ''up'' \<and>
     t < s \<and> toks ! t = ''type:'' \<and> toks ! (t + 1) = ''4xxx,'' \<and>
     k < s \<and> toks ! k = ''bsf:'' \<and> 7 \<le> length (toks ! (k + 1)) \<and>
     ''bsf:'' \<notin> set (drop (k + 1) (take s toks))"

text \<open>The local variables after a turn at a token other than \<^verbatim>\<open>state:\<close>.\<close>

definition turn :: "string list \<Rightarrow> nat \<Rightarrow> scan \<Rightarrow> scan" where
  "turn toks i v =
     (if sublist ''qat_dev'' (toks ! i) then v\<lparr>name := Some (toks ! i)\<rparr>
      else if toks ! i = ''type:'' \<and> toks ! (i + 1) = ''4xxx,''
        then v\<lparr>telemetry_supported := True\<rparr>
      else if toks ! i = ''bsf:'' then v\<lparr>bus := Some (slice_5_7 (toks ! (i + 1)))\<rparr>
      else v)"

text \<open>A status output as \<^verbatim>\<open>adf_ctl\<close> prints it for one device, split into tokens.\<close>

definition status_tokens :: "string \<Rightarrow> string list" where
  "status_tokens st =
     [''qat_dev0'', ''-'', ''type:'', ''4xxx,'', ''inst_id:'', ''0,'', ''node_id:'', ''0,'',
      ''bsf:'', ''0000:6b:00.0,'', ''#accel:'', ''1'', ''#engines:'', ''9'', ''state:'', st]"

subsection \<open>Notions used to state properties of the correlation\<close>

text \<open>Whether the bus of a device is a substring of a path.\<close>

definition bus_in :: "string \<Rightarrow> device \<Rightarrow> bool" where
  "bus_in path d = (case snd d of None \<Rightarrow> False | Some b \<Rightarrow> sublist b path)"

text \<open>
  The way from the paths that \<^verbatim>\<open>find\<close> printed to \<^verbatim>\<open>set_paths\<close>, as \<^const>\<open>EnableTelemetry\<close>
  goes it: the sort of line 42, then the loops of lines 79 to 84.
\<close>

definition endpoints :: "string list \<Rightarrow> device list \<Rightarrow> py_error + string list" where
  "endpoints original_array devs =
     (case sort_paths original_array of
        Inl e \<Rightarrow> Inl e
      | Inr output_telem \<Rightarrow>
          (case correlate output_telem devs [] of
             (Some e, sp) \<Rightarrow> Inl e
           | (None, sp) \<Rightarrow> Inr sp))"

text \<open>Two telemetry directories as the driver exposes them.\<close>

definition path_6b :: string where
  "path_6b = ''/sys/devices/pci0000:6b/0000:6b:00.0/telemetry''"

definition path_70 :: string where
  "path_70 = ''/sys/devices/pci0000:70/0000:70:00.0/telemetry''"

subsection \<open>Notions used to state properties of the effects\<close>

text \<open>The command of lines 92 and 93 for one path.\<close>

definition enable_command :: "string \<Rightarrow> string" where
  "enable_command path = ''echo 1 > '' @ (path @ ''/control'')"

text \<open>The command of line 115 for one path.\<close>

definition cat_command :: "string \<Rightarrow> string" where
  "cat_command path = ''cat '' @ path @ ''/device_data''"

text \<open>
  Hosts to run the script on: one where every command prints nothing and succeeds, one
  where every command fails, and one whose status output lists a device that is up and of
  the supported type but has no \<^verbatim>\<open>bsf:\<close> token, next to one telemetry directory.
\<close>

definition quiet :: shell where
  "quiet n c = (0, [])"

definition failing :: shell where
  "failing n c = (1, [])"

definition status_no_bsf :: string where
  "status_no_bsf =
     '' qat_dev0 - type: 4xxx,  inst_id: 0,  node_id: 0,  #accel: 1 #engines: 9 state: up''"

definition host_no_bsf :: shell where
  "host_no_bsf n c =
     (if c = adf_command then (0, status_no_bsf)
      else if c = find_command then (0, path_6b)
      else (0, []))"

subsection \<open>Notions used to state properties of the render loop\<close>

text \<open>The variables a row reads: those of the five categories, the latency and the compression.\<close>

definition row_vars :: "string list" where
  "row_vars =
     decompress_vars @ pke_vars @ cph_vars @ ath_vars @ ucs_vars @ [''latency'', ''compression'']"

text \<open>Cells joined by tabs, and the rows (line, text) that a list of events writes below the head.\<close>

fun cells :: "string list \<Rightarrow> string" where
  "cells [] = []"
| "cells [x] = x"
| "cells (x # y # zs) = x @ tab @ cells (y # zs)"

fun rows_of :: "event list \<Rightarrow> (nat \<times> string) list" where
  "rows_of [] = []"
| "rows_of (Addstr r c t # evs) = (if 4 \<le> r then (r, t) # rows_of evs else rows_of evs)"
| "rows_of (ev # evs) = rows_of evs"

text \<open>
  A host with two devices that are up, \<^verbatim>\<open>qat_dev0\<close> on bus \<^verbatim>\<open>6b\<close> and \<^verbatim>\<open>qat_dev1\<close> on bus
  \<^verbatim>\<open>70\<close>, whose counter dumps are \<open>dump0\<close> and \<open>dump1\<close>; and counter dumps: a full one with
  a given compression value, one without the key \<^verbatim>\<open>util_cpr0\<close>, one without \<^verbatim>\<open>util_dcpr1\<close>.
\<close>

definition status_two :: string where
  "status_two =
     '' qat_dev0 - type: 4xxx,  inst_id: 0,  node_id: 0,  bsf: 0000:6b:00.0,  #accel: 1 #engines: 9 state: up''
     @ [CHR 0x0A] @
     '' qat_dev1 - type: 4xxx,  inst_id: 1,  node_id: 0,  bsf: 0000:70:00.0,  #accel: 1 #engines: 9 state: up''"

definition dump_tail :: string where
  "dump_tail =
     '' util_pke0 0 util_pke1 0 util_pke2 0 util_pke3 0 util_pke4 0 util_pke5 0''
     @ '' util_cph0 0 util_cph1 0 util_cph2 0 util_cph3 0''
     @ '' util_ath0 0 util_ath1 0 util_ath2 0 util_ath3 0 util_ucs0 1 util_ucs1 2''"

definition dump_full :: "string \<Rightarrow> string" where
  "dump_full c =
     ''sample_cnt 12 lat_acc_avg 700 util_cpr0 '' @ c
     @ '' util_dcpr0 1 util_dcpr1 2 util_dcpr2 2'' @ dump_tail"

definition dump_no_cpr0 :: string where
  "dump_no_cpr0 =
     ''sample_cnt 12 lat_acc_avg 700 util_dcpr0 1 util_dcpr1 2 util_dcpr2 2'' @ dump_tail"

definition dump_no_dcpr1 :: string where
  "dump_no_dcpr1 =
     ''sample_cnt 12 lat_acc_avg 700 util_cpr0 42 util_dcpr0 1 util_dcpr2 2'' @ dump_tail"

definition host_two :: "string \<Rightarrow> string \<Rightarrow> shell" where
  "host_two dump0 dump1 n c =
     (if c = adf_command then (0, status_two)
      else if c = find_command then (0, path_70 @ [CHR 0x0A] @ path_6b)
      else if c = cat_command path_6b then (0, dump0)
      else if c = cat_command path_70 then (0, dump1)
      else (0, []))"

text \<open>The state in which \<^verbatim>\<open>pbar\<close> starts on a host, after the discovery at start-up.\<close>

definition start :: "shell \<Rightarrow> pstate" where
  "start sh =
     \<lparr>globals = snd (EnableTelemetry sh world_init), vars = Map.empty, refresh_counter = 0\<rparr>"

section \<open>Properties\<close>

subsection \<open>The scan of the status output\<close>

lemma last_name_snoc:
  "last_name (ts @ [x]) = (if sublist ''qat_dev'' x then Some x else last_name ts)"
  by (simp add: last_name_def)

lemma not_qat [simp]:
  "\<not> sublist ''qat_dev'' ''type:''" "\<not> sublist ''qat_dev'' ''bsf:''" "\<not> sublist ''qat_dev'' ''state:''"
  by (simp_all add: sublist_code)

lemma scan_loop_end: "length toks \<le> i \<Longrightarrow> scan_loop toks i s = (None, snd s)"
  by (subst scan_loop.simps) simp

lemma scan_loop_step:
  "i < length toks \<Longrightarrow> scan_step toks i s = Inr s' \<Longrightarrow> scan_loop toks i s = scan_loop toks (Suc i) s'"
  by (subst scan_loop.simps) simp

lemma scan_loop_raise:
  "i < length toks \<Longrightarrow> scan_step toks i s = Inl e \<Longrightarrow> scan_loop toks i s = (Some e, snd s)"
  by (subst scan_loop.simps) simp

lemma scan_step_name:
  "sublist ''qat_dev'' (toks ! i) \<Longrightarrow> scan_step toks i (v, devs) = Inr (v\<lparr>name := Some (toks ! i)\<rparr>, devs)"
  by (simp add: scan_step_def)

lemma scan_step_type:
  "toks ! i = ''type:'' \<Longrightarrow> i + 1 < length toks \<Longrightarrow>
   scan_step toks i (v, devs) =
     Inr (if toks ! (i + 1) = ''4xxx,'' then v\<lparr>telemetry_supported := True\<rparr> else v, devs)"
  by (auto simp add: scan_step_def item_def)

lemma scan_step_bsf:
  "toks ! i = ''bsf:'' \<Longrightarrow> i + 1 < length toks \<Longrightarrow>
   scan_step toks i (v, devs) = Inr (v\<lparr>bus := Some (slice_5_7 (toks ! (i + 1)))\<rparr>, devs)"
  by (simp add: scan_step_def item_def)

lemma scan_step_state:
  "toks ! i = ''state:'' \<Longrightarrow> i + 1 < length toks \<Longrightarrow>
   scan_step toks i (v, devs) =
     Inr (scan_init, if toks ! (i + 1) = ''up'' \<and> telemetry_supported v
                     then devs @ [(name v, bus v)] else devs)"
  by (auto simp add: scan_step_def item_def)

lemma scan_step_other:
  "\<not> sublist ''qat_dev'' (toks ! i) \<Longrightarrow> toks ! i \<noteq> ''type:'' \<Longrightarrow> toks ! i \<noteq> ''bsf:'' \<Longrightarrow>
   toks ! i \<noteq> ''state:'' \<Longrightarrow> scan_step toks i (v, devs) = Inr (v, devs)"
  by (auto simp add: scan_step_def)

lemma scan_step_last:
  assumes "toks ! i = ''type:'' \<or> toks ! i = ''bsf:'' \<or> toks ! i = ''state:''" "length toks \<le> i + 1"
  shows "scan_step toks i (v, devs) = Inl IndexError"
  using assms(1)
proof (elim disjE)
  assume "toks ! i = ''type:''"
  then show ?thesis using assms(2) by (simp add: scan_step_def item_def)
next
  assume "toks ! i = ''bsf:''"
  then show ?thesis using assms(2) by (simp add: scan_step_def item_def)
next
  assume "toks ! i = ''state:''"
  then show ?thesis using assms(2) by (simp add: scan_step_def item_def)
qed

text \<open>A turn at a token other than \<^verbatim>\<open>state:\<close> leaves the inventory as it is.\<close>

lemma scan_step_keeps:
  assumes "toks ! i \<noteq> ''state:''" "scan_step toks i (v, devs) = Inr (v', devs')"
  shows "devs' = devs"
  using assms unfolding scan_step_def by (auto split: if_splits sum.splits)

lemma scan_loop_no_state:
  assumes "\<forall>j. i \<le> j \<and> j < length toks \<longrightarrow> toks ! j \<noteq> ''state:''"
  shows "snd (scan_loop toks i (v, devs)) = devs"
  using assms
proof (induction "length toks - i" arbitrary: i v)
  case 0
  then show ?case by (simp add: scan_loop_end)
next
  case (Suc n)
  then have lt: "i < length toks" by simp
  have ns: "toks ! i \<noteq> ''state:''" using Suc.prems lt by simp
  show ?case
  proof (cases "scan_step toks i (v, devs)")
    case (Inl e)
    then show ?thesis using lt by (simp add: scan_loop_raise)
  next
    case (Inr s')
    obtain v' devs' where s': "s' = (v', devs')" by (cases s')
    have d: "devs' = devs" using scan_step_keeps[OF ns] Inr s' by simp
    have "snd (scan_loop toks (Suc i) (v', devs)) = devs"
      using Suc.hyps(1)[of "Suc i" v'] Suc.hyps(2) Suc.prems by auto
    then show ?thesis using scan_loop_step[OF lt Inr] s' d by simp
  qed
qed

lemma scan_loop_no_state_ok:
  assumes "\<forall>j. i \<le> j \<and> j < length toks \<longrightarrow> toks ! j \<noteq> ''state:''"
    and "last toks \<notin> {''type:'', ''bsf:''}"
  shows "fst (scan_loop toks i (v, devs)) = None"
  using assms(1)
proof (induction "length toks - i" arbitrary: i v)
  case 0
  then show ?case by (simp add: scan_loop_end)
next
  case (Suc n)
  then have lt: "i < length toks" by simp
  have ns: "toks ! i \<noteq> ''state:''" using Suc.prems lt by simp
  have "\<exists>v'. scan_step toks i (v, devs) = Inr (v', devs)"
  proof (cases "Suc i = length toks")
    case True
    then have "last toks = toks ! i" using last_conv_nth[of toks] lt by (cases toks) auto
    then have "toks ! i \<noteq> ''type:''" "toks ! i \<noteq> ''bsf:''" using assms(2) by auto
    then show ?thesis using ns by (auto simp: scan_step_def)
  next
    case False
    then have "i + 1 < length toks" using lt by simp
    then show ?thesis using ns by (auto simp: scan_step_def item_def)
  qed
  then obtain v' where st: "scan_step toks i (v, devs) = Inr (v', devs)" by blast
  have "fst (scan_loop toks (Suc i) (v', devs)) = None"
    using Suc.hyps(1)[of "Suc i" v'] Suc.hyps(2) Suc.prems by auto
  then show ?case unfolding scan_loop_step[OF lt st] .
qed



lemma scan_step_turn:
  assumes "i + 1 < length toks" "toks ! i \<noteq> ''state:''"
  shows "scan_step toks i (v, devs) = Inr (turn toks i v, devs)"
proof (cases "sublist ''qat_dev'' (toks ! i)")
  case True
  then show ?thesis by (simp add: scan_step_name turn_def)
next
  case nq: False
  show ?thesis
  proof (cases "toks ! i = ''type:''")
    case True
    then show ?thesis using scan_step_type[OF True assms(1)] nq by (simp add: turn_def)
  next
    case nt: False
    show ?thesis
    proof (cases "toks ! i = ''bsf:''")
      case True
      then show ?thesis using scan_step_bsf[OF True assms(1)] nq by (simp add: turn_def)
    next
      case False
      then show ?thesis using scan_step_other[OF nq nt False assms(2)] nq nt by (simp add: turn_def)
    qed
  qed
qed

lemma turn_name:
  "name (turn toks i v) = (if sublist ''qat_dev'' (toks ! i) then Some (toks ! i) else name v)"
  by (simp add: turn_def)

lemma turn_telemetry:
  "telemetry_supported (turn toks i v) \<longleftrightarrow>
     telemetry_supported v \<or> (toks ! i = ''type:'' \<and> toks ! (i + 1) = ''4xxx,'')"
  by (auto simp add: turn_def)

lemma turn_bus:
  "bus (turn toks i v) = (if toks ! i = ''bsf:'' then Some (slice_5_7 (toks ! (i + 1))) else bus v)"
  by (auto simp add: turn_def)

lemma single_state:
  assumes "single_up_candidate toks t k s" "j < length toks"
  shows "toks ! j = ''state:'' \<longleftrightarrow> j = s"
proof -
  have "set (filter (\<lambda>j. toks ! j = ''state:'') [0..<length toks]) = {s}"
    using assms(1) by (simp add: single_up_candidate_def)
  then have "{j. j < length toks \<and> toks ! j = ''state:''} = {s}" by auto
  then show ?thesis using assms(2) by auto
qed

lemma scan_loop_before:
  assumes c: "single_up_candidate toks t k s"
    and "i \<le> s" "t < i \<longrightarrow> telemetry_supported v"
    and "k < i \<longrightarrow> bus v = Some (slice_5_7 (toks ! (k + 1)))"
    and "name v = last_name (take i toks)"
  shows "scan_loop toks i (v, []) =
         scan_loop toks (Suc s) (scan_init, [(last_name (take s toks), Some (slice_5_7 (toks ! (k + 1))))])"
  using assms(2-)
proof (induction "s - i" arbitrary: i v)
  case 0
  then have eq: "i = s" by simp
  have s: "s + 1 < length toks" "toks ! s = ''state:''" "toks ! (s + 1) = ''up''" "t < s" "k < s"
    using c single_state[OF c, of s] by (auto simp: single_up_candidate_def)
  have "scan_step toks s (v, []) = Inr (scan_init, [(name v, bus v)])"
    using scan_step_state[OF s(2) s(1), of v "[]"] s 0 eq by simp
  then show ?case using scan_loop_step[of s toks "(v, [])"] s 0 eq by simp
next
  case (Suc n)
  then have lt: "i < s" by simp
  have s: "s + 1 < length toks" using c by (simp add: single_up_candidate_def)
  have il: "i + 1 < length toks" "i < length toks" using lt s by auto
  have ns: "toks ! i \<noteq> ''state:''" using single_state[OF c il(2)] lt by simp
  have tk: "toks ! t = ''type:''" "toks ! (t + 1) = ''4xxx,''" "toks ! k = ''bsf:''"
    using c by (auto simp: single_up_candidate_def)
  have nob: "k < i \<Longrightarrow> toks ! i \<noteq> ''bsf:''"
  proof
    assume ki: "k < i" and b: "toks ! i = ''bsf:''"
    have "toks ! i = drop (k + 1) (take s toks) ! (i - (k + 1))"
      using ki lt s by simp
    moreover have "i - (k + 1) < length (drop (k + 1) (take s toks))" using ki lt s by simp
    ultimately have "''bsf:'' \<in> set (drop (k + 1) (take s toks))" using b nth_mem by metis
    then show False using c by (simp add: single_up_candidate_def)
  qed
  have tk1: "take (Suc i) toks = take i toks @ [toks ! i]" using il by (simp add: take_Suc_conv_app_nth)
  have st: "scan_step toks i (v, []) = Inr (turn toks i v, [])"
    by (rule scan_step_turn[OF il(1) ns])
  have inv1: "t < Suc i \<longrightarrow> telemetry_supported (turn toks i v)"
    using Suc.prems(2) tk by (auto simp: turn_telemetry less_Suc_eq)
  have inv2: "k < Suc i \<longrightarrow> bus (turn toks i v) = Some (slice_5_7 (toks ! (k + 1)))"
    using Suc.prems(3) tk nob by (auto simp: turn_bus less_Suc_eq)
  have inv3: "name (turn toks i v) = last_name (take (Suc i) toks)"
    using Suc.prems(4) by (simp add: turn_name tk1 last_name_snoc)
  have "scan_loop toks i (v, []) = scan_loop toks (Suc i) (turn toks i v, [])"
    using scan_loop_step[OF il(2) st] .
  also have "\<dots> = scan_loop toks (Suc s) (scan_init, [(last_name (take s toks), Some (slice_5_7 (toks ! (k + 1))))])"
    using Suc.hyps(1)[of "Suc i" "turn toks i v"] Suc.hyps(2) lt inv1 inv2 inv3 by auto
  finally show ?case .
qed

lemma slice_valid: "7 \<le> length b \<Longrightarrow> slice_5_7 b = [b ! 5, b ! 6]"
proof -
  assume l: "7 \<le> length b"
  have "drop 5 b = b ! 5 # drop (Suc 5) b" using l Cons_nth_drop_Suc[of 5 b] by simp
  moreover have "drop (Suc 5) b = b ! 6 # drop (Suc 6) b"
    using l Cons_nth_drop_Suc[of 6 b] by simp
  ultimately show ?thesis by (simp add: slice_5_7_def)
qed


text \<open>
  C3. A status output with one candidate that has the supported type, a \<^verbatim>\<open>bsf:\<close> token
  followed by a token of at least seven characters, and then \<^verbatim>\<open>state: up\<close>: the inventory
  is exactly one record, and its bus is the two characters at offsets 5 and 6 of the token
  after \<^verbatim>\<open>bsf:\<close>. The scan raises nothing unless the output ends in a dangling \<^verbatim>\<open>type:\<close> or
  \<^verbatim>\<open>bsf:\<close>.
\<close>

theorem inventory_single_up_candidate:
  assumes "single_up_candidate toks t k s"
  shows "snd (build_devices toks) =
           [(last_name (take s toks), Some [toks ! (k + 1) ! 5, toks ! (k + 1) ! 6])]
       \<and> (last toks \<notin> {''type:'', ''bsf:''} \<longrightarrow> fst (build_devices toks) = None)"
proof -
  let ?r = "(last_name (take s toks), Some (slice_5_7 (toks ! (k + 1))))"
  have b: "build_devices toks = scan_loop toks (Suc s) (scan_init, [?r])"
    unfolding build_devices_def
    using scan_loop_before[OF assms, of 0 scan_init] by (simp add: scan_init_def last_name_def)
  have after: "\<forall>j. Suc s \<le> j \<and> j < length toks \<longrightarrow> toks ! j \<noteq> ''state:''"
    using single_state[OF assms] by auto
  have v: "slice_5_7 (toks ! (k + 1)) = [toks ! (k + 1) ! 5, toks ! (k + 1) ! 6]"
    using assms by (intro slice_valid) (simp add: single_up_candidate_def)
  show ?thesis
    using scan_loop_no_state[OF after, of scan_init "[?r]"]
      scan_loop_no_state_ok[OF after, of scan_init "[?r]"] b v by simp
qed

theorem inventory_single_up_candidate_witness:
  "single_up_candidate (status_tokens ''up'') 2 8 14 \<and>
   build_devices (status_tokens ''up'') = (None, [(Some ''qat_dev0'', Some ''6b'')])"
proof -
  have h: "single_up_candidate (status_tokens ''up'') 2 8 14"
    by (simp add: single_up_candidate_def status_tokens_def)
  have n: "last_name (take 14 (status_tokens ''up'')) = Some ''qat_dev0''"
    by (simp add: last_name_def status_tokens_def sublist_code)
  have l: "last (status_tokens ''up'') \<notin> {''type:'', ''bsf:''}"
    by (simp add: status_tokens_def)
  have "snd (build_devices (status_tokens ''up'')) = [(Some ''qat_dev0'', Some ''6b'')]"
    using inventory_single_up_candidate [OF h] n by (simp add: status_tokens_def)
  moreover have "fst (build_devices (status_tokens ''up'')) = None"
    using inventory_single_up_candidate [OF h] l by blast
  ultimately show ?thesis using h by (simp add: prod_eq_iff)
qed

text \<open>
  C8. At a \<^verbatim>\<open>state:\<close> token followed by a value other than \<^verbatim>\<open>up\<close> the turn appends no
  record, whatever the local variables hold (the type may have marked the candidate as
  supporting telemetry), and the scan goes on with the variables reset.
\<close>

theorem state_not_up_appends_nothing:
  assumes "i + 1 < length toks" "toks ! i = ''state:''" "toks ! (i + 1) \<noteq> ''up''"
  shows "scan_step toks i (v, devs) = Inr (scan_init, devs) \<and>
         scan_loop toks i (v, devs) = scan_loop toks (i + 1) (scan_init, devs)"
proof -
  have st: "scan_step toks i (v, devs) = Inr (scan_init, devs)"
    using scan_step_state[OF assms(2) assms(1), of v devs] assms(3) by simp
  have "i < length toks" using assms(1) by simp
  then have "scan_loop toks i (v, devs) = scan_loop toks (i + 1) (scan_init, devs)"
    using scan_loop_step[OF _ st] by simp
  with st show ?thesis by simp
qed

theorem state_not_up_appends_nothing_witness:
  "14 + 1 < length (status_tokens ''down'') \<and> status_tokens ''down'' ! 14 = ''state:'' \<and>
   status_tokens ''down'' ! (14 + 1) \<noteq> ''up'' \<and>
   scan_step (status_tokens ''down'') 14
     (\<lparr>name = Some ''qat_dev0'', bus = Some ''6b'', telemetry_supported = True\<rparr>, []) =
     Inr (scan_init, [])"
proof -
  have h: "14 + 1 < length (status_tokens ''down'')" "status_tokens ''down'' ! 14 = ''state:''"
    "status_tokens ''down'' ! (14 + 1) \<noteq> ''up''"
    by (simp_all add: status_tokens_def)
  show ?thesis
    using state_not_up_appends_nothing [OF h,
      of "\<lparr>name = Some ''qat_dev0'', bus = Some ''6b'', telemetry_supported = True\<rparr>" "[]"] h
    by simp
qed

subsection \<open>The correlation\<close>

lemma match_devices_end: "length devs \<le> i \<Longrightarrow> match_devices devs path i sp = (None, sp)"
  by (subst match_devices.simps) simp

lemma match_devices_some:
  assumes "i < length devs" "snd (devs ! i) = Some b"
  shows "match_devices devs path i sp =
         match_devices devs path (Suc i) (if sublist b path then sp @ [path] else sp)"
  using assms by (subst match_devices.simps) (simp add: py_in_def)

lemma match_devices_none:
  assumes "i < length devs" "snd (devs ! i) = None"
  shows "match_devices devs path i sp = (Some TypeError, sp)"
  using assms by (subst match_devices.simps) (simp add: py_in_def)

lemma match_devices_ok:
  assumes "\<forall>d \<in> set (drop i devs). snd d \<noteq> None"
  shows "match_devices devs path i sp =
         (None, sp @ replicate (length (filter (bus_in path) (drop i devs))) path)"
  using assms
proof (induction "length devs - i" arbitrary: i sp)
  case 0
  then show ?case by (simp add: match_devices_end)
next
  case (Suc n)
  then have lt: "i < length devs" by simp
  have dr: "drop i devs = devs ! i # drop (Suc i) devs" using lt by (simp add: Cons_nth_drop_Suc)
  then obtain b where b: "snd (devs ! i) = Some b" using Suc.prems by auto
  have rest: "\<forall>d \<in> set (drop (Suc i) devs). snd d \<noteq> None" using Suc.prems dr by simp
  have "match_devices devs path (Suc i) (if sublist b path then sp @ [path] else sp) =
        (None, (if sublist b path then sp @ [path] else sp)
               @ replicate (length (filter (bus_in path) (drop (Suc i) devs))) path)"
    using Suc.hyps(1)[of "Suc i"] Suc.hyps(2) rest by simp
  then show ?case
    unfolding match_devices_some[OF lt b] dr by (simp add: bus_in_def b replicate_app_Cons_same)
qed

lemma match_devices_raises:
  assumes "\<exists>d \<in> set (drop i devs). snd d = None"
  shows "fst (match_devices devs path i sp) = Some TypeError"
  using assms
proof (induction "length devs - i" arbitrary: i sp)
  case 0
  then show ?case by simp
next
  case (Suc n)
  then have lt: "i < length devs" by simp
  have dr: "drop i devs = devs ! i # drop (Suc i) devs" using lt by (simp add: Cons_nth_drop_Suc)
  show ?case
  proof (cases "snd (devs ! i)")
    case None
    then show ?thesis by (simp add: match_devices_none[OF lt])
  next
    case (Some b)
    then have "\<exists>d \<in> set (drop (Suc i) devs). snd d = None" using Suc.prems dr by auto
    then show ?thesis
      unfolding match_devices_some[OF lt Some] using Suc.hyps(1)[of "Suc i"] Suc.hyps(2) by simp
  qed
qed

lemma correlate_ok:
  assumes "\<forall>d \<in> set devs. snd d \<noteq> None"
  shows "correlate ps devs sp =
         (None, sp @ concat (map (\<lambda>p. replicate (length (filter (bus_in p) devs)) p) ps))"
proof (induction ps arbitrary: sp)
  case Nil
  then show ?case by simp
next
  case (Cons p ps)
  show ?case using match_devices_ok[of 0 devs p sp] assms Cons by simp
qed

lemma correlate_raises:
  assumes "\<exists>d \<in> set devs. snd d = None" "ps \<noteq> []"
  shows "fst (correlate ps devs sp) = Some TypeError"
proof -
  obtain p rest where ps: "ps = p # rest" using assms(2) by (cases ps) auto
  have "fst (match_devices devs p 0 sp) = Some TypeError"
    using match_devices_raises[of 0 devs p sp] assms(1) by simp
  then show ?thesis unfolding ps by (cases "match_devices devs p 0 sp") simp
qed

lemma mset_concat_map_cong:
  assumes "mset xs = mset ys"
  shows "mset (concat (map f xs)) = mset (concat (map f ys))"
proof -
  have "mset (concat (map f zs)) = sum_mset (image_mset (\<lambda>z. mset (f z)) (mset zs))" for zs
    by (induction zs) simp_all
  then show ?thesis using assms by simp
qed

lemma sort_paths_perm:
  assumes "mset a = mset b"
  shows "map_sum id mset (sort_paths a) = map_sum id mset (sort_paths b)"
proof -
  have "set a = set b" using assms by (metis set_mset_mset)
  then show ?thesis using assms by (simp add: sort_paths_def list_ex_iff)
qed

lemma sort_paths_mset: "sort_paths a = Inr ps \<Longrightarrow> mset ps = mset a"
  by (auto simp: sort_paths_def split: if_splits)

text \<open>
  C9. Two lists of counter paths that are permutations of each other give the same
  endpoints up to order (the same multiset, hence the same set), and the same exception
  when one is raised.
\<close>

theorem correlation_permutation_invariant:
  assumes "mset a = mset b"
  shows "map_sum id mset (endpoints a devs) = map_sum id mset (endpoints b devs) \<and>
         map_sum id set (endpoints a devs) = map_sum id set (endpoints b devs)"
proof -
  have m: "map_sum id mset (endpoints a devs) = map_sum id mset (endpoints b devs)"
  proof (cases "sort_paths a")
    case (Inl e)
    then have "sort_paths b = Inl e" using sort_paths_perm[OF assms] by (cases "sort_paths b") auto
    then show ?thesis using Inl by (simp add: endpoints_def)
  next
    case (Inr pa)
    then obtain pb where pb: "sort_paths b = Inr pb"
      using sort_paths_perm[OF assms] by (cases "sort_paths b") auto
    have pm: "mset pa = mset pb" using sort_paths_mset[OF Inr] sort_paths_mset[OF pb] assms by simp
    show ?thesis
    proof (cases "\<forall>d \<in> set devs. snd d \<noteq> None")
      case True
      show ?thesis
        using Inr pb correlate_ok[OF True, of _ "[]"] mset_concat_map_cong[OF pm]
        by (simp add: endpoints_def)
    next
      case False
      then have ex: "\<exists>d \<in> set devs. snd d = None" by simp
      show ?thesis
      proof (cases "pa = []")
        case True
        then have "pb = []" using pm by auto
        then show ?thesis using True Inr pb by (simp add: endpoints_def)
      next
        case False
        then have nb: "pb \<noteq> []" using pm by auto
        have "fst (correlate pa devs []) = Some TypeError" "fst (correlate pb devs []) = Some TypeError"
          using correlate_raises[OF ex False] correlate_raises[OF ex nb] by auto
        then show ?thesis using Inr pb
          by (cases "correlate pa devs []"; cases "correlate pb devs []") (simp add: endpoints_def)
      qed
    qed
  qed
  have "map_sum id set x = map_sum id set y" if "map_sum id mset x = map_sum id mset y"
    for x y :: "py_error + string list"
    using that by (cases x; cases y) (auto dest: mset_eq_setD)
  with m show ?thesis by blast
qed

theorem correlation_permutation_invariant_witness:
  "mset [path_70, path_6b] = mset [path_6b, path_70] \<and>
   map_sum id set (endpoints [path_70, path_6b] [(Some ''qat_dev0'', Some ''6b'')]) =
   map_sum id set (endpoints [path_6b, path_70] [(Some ''qat_dev0'', Some ''6b'')])"
proof -
  have h: "mset [path_70, path_6b] = mset [path_6b, path_70]" by simp
  show ?thesis
    using correlation_permutation_invariant [OF h, of "[(Some ''qat_dev0'', Some ''6b'')]"] h
    by blast
qed

subsection \<open>Discovery and its effects\<close>

lemma enable_loop_Cons:
  "enable_loop sh (path # rest) w =
     (let w' = w\<lparr>clock := clock w + 1, trace := trace w @ [Run (enable_command path)]\<rparr>
      in if fst (sh (clock w) (enable_command path)) \<noteq> 0 then w' else enable_loop sh rest w')"
  by (simp add: run_def enable_command_def Let_def)

text \<open>
  C4 (as the code has it). When the write to one endpoint fails after the writes to the
  endpoints before it succeeded, the loop ends there: the commands run are those of the
  endpoints up to the failing one, none is run for the endpoints after it, and nothing else
  changes; the failing endpoint stays in \<^verbatim>\<open>set_paths\<close>.
\<close>

theorem enable_failure_ends_loop:
  assumes "\<forall>i < length pre. fst (sh (clock w + i) (enable_command (pre ! i))) = 0"
    and "fst (sh (clock w + length pre) (enable_command p)) \<noteq> 0"
  shows "enable_loop sh (pre @ p # post) w =
         w\<lparr>clock := clock w + length pre + 1,
           trace := trace w @ map (\<lambda>q. Run (enable_command q)) (pre @ [p])\<rparr>"
  using assms
proof (induction pre arbitrary: w)
  case Nil
  then show ?case by (simp add: enable_loop_Cons del: enable_loop.simps)
next
  case (Cons q pre)
  let ?w = "w\<lparr>clock := clock w + 1, trace := trace w @ [Run (enable_command q)]\<rparr>"
  have q: "fst (sh (clock w) (enable_command q)) = 0" using Cons.prems(1) by auto
  have 1: "\<forall>i < length pre. fst (sh (clock ?w + i) (enable_command (pre ! i))) = 0"
  proof (intro allI impI)
    fix i assume "i < length pre"
    then have "fst (sh (clock w + Suc i) (enable_command ((q # pre) ! Suc i))) = 0"
      using Cons.prems(1) by (metis Suc_less_eq length_Cons)
    then show "fst (sh (clock ?w + i) (enable_command (pre ! i))) = 0" by simp
  qed
  have 2: "fst (sh (clock ?w + length pre) (enable_command p)) \<noteq> 0"
    using Cons.prems(2) by simp
  show ?case
    using Cons.IH[OF 1 2] q by (simp add: enable_loop_Cons del: enable_loop.simps)
qed

theorem enable_failure_ends_loop_witness:
  "enable_loop failing [path_6b, path_70] (world_init\<lparr>set_paths := [path_6b, path_70]\<rparr>) =
     \<lparr>devices = [], paths = [], set_paths = [path_6b, path_70], clock = 1,
        trace = [Run (enable_command path_6b)]\<rparr>"
proof -
  let ?w = "world_init\<lparr>set_paths := [path_6b, path_70]\<rparr>"
  have 1: "\<forall>i < length ([] :: string list). fst (failing (clock ?w + i) (enable_command ([] ! i))) = 0"
    by simp
  have 2: "fst (failing (clock ?w + length ([] :: string list)) (enable_command path_6b)) \<noteq> 0"
    by (simp add: failing_def)
  show ?thesis
    using enable_failure_ends_loop [OF 1 2, of "[path_70]"] by (simp add: world_init_def)
qed

text \<open>
  The claim as the specification words it fails on a host where every write fails: no
  write to the second endpoint is attempted.
\<close>

theorem enable_failure_skips_later_endpoints:
  "Run (enable_command path_70) \<notin>
     set (trace (enable_loop failing [path_6b, path_70]
                   (world_init\<lparr>set_paths := [path_6b, path_70]\<rparr>)))"
  by (simp add: enable_loop_Cons failing_def world_init_def enable_command_def path_6b_def
      path_70_def del: enable_loop.simps)

text \<open>When no write fails every endpoint is written to.\<close>

lemma enable_loop_all_ok:
  assumes "\<forall>i < length ps. fst (sh (clock w + i) (enable_command (ps ! i))) = 0"
  shows "enable_loop sh ps w =
         w\<lparr>clock := clock w + length ps,
           trace := trace w @ map (\<lambda>q. Run (enable_command q)) ps\<rparr>"
  using assms
proof (induction ps arbitrary: w)
  case Nil
  then show ?case by simp
next
  case (Cons q ps)
  let ?w = "w\<lparr>clock := clock w + 1, trace := trace w @ [Run (enable_command q)]\<rparr>"
  have q: "fst (sh (clock w) (enable_command q)) = 0" using Cons.prems(1) by auto
  have 1: "\<forall>i < length ps. fst (sh (clock ?w + i) (enable_command (ps ! i))) = 0"
  proof (intro allI impI)
    fix i assume "i < length ps"
    then have "fst (sh (clock w + Suc i) (enable_command ((q # ps) ! Suc i))) = 0"
      using Cons.prems(1) by (metis Suc_less_eq length_Cons)
    then show "fst (sh (clock ?w + i) (enable_command (ps ! i))) = 0" by simp
  qed
  show ?case
    using Cons.IH[OF 1] q by (simp add: enable_loop_Cons del: enable_loop.simps)
qed

text \<open>A turn of the render loop that raises ends \<^verbatim>\<open>pbar\<close>.\<close>

lemma pbar_loop_raise: "tick sh s = (Some e, s') \<Longrightarrow> pbar_loop sh s = Some s'"
  by (subst pbar_loop.simps) simp

lemma pbar_loop_next: "tick sh s = (None, s') \<Longrightarrow> pbar_loop sh s = pbar_loop sh s'"
  by (subst pbar_loop.simps) simp

text \<open>
  The exit status is 1 only when the discovery at start-up raises something other than
  \<^verbatim>\<open>SystemExit\<close>; whenever else the process ends, the status is 0.
\<close>

lemma main_status:
  assumes "main sh = Some (st, w)"
  shows "st = 0 \<or> (st = 1 \<and>
           (\<exists>e. fst (EnableTelemetry sh world_init) = Some e \<and> e \<noteq> SystemExit))"
  using assms
  by (auto simp: main_def split: prod.splits option.splits if_splits)

text \<open>
  C1 (as the code has it). When the correlation yields no endpoint, \<^verbatim>\<open>EnableTelemetry\<close>
  prints its message on standard output and raises \<^verbatim>\<open>SystemExit\<close> without a code; no
  write to a control file is attempted. When this is the discovery at start-up the process
  ends with exit status 0 before any turn of the render loop, and nothing is written on
  standard error.
\<close>

theorem no_endpoints_exit:
  assumes "sort_paths (split (snd (sh (clock w + 1) find_command))) = Inr ps"
    and "build_devices (split (snd (sh (clock w) adf_command))) = (None, devs)"
    and "correlate ps devs [] = (None, [])"
  shows "EnableTelemetry sh w =
           (Some SystemExit,
            w\<lparr>devices := devs, paths := ps, set_paths := [], clock := clock w + 2,
              trace := trace w @
                [Run adf_command, Run find_command, Print no_endpoints_message]\<rparr>)
       \<and> (w = world_init \<longrightarrow>
            main sh =
              Some (0, \<lparr>devices = devs, paths = ps, set_paths = [], clock = 2,
                        trace = [Run adf_command, Run find_command,
                                 Print no_endpoints_message]\<rparr>))"
proof -
  have e: "EnableTelemetry sh w =
           (Some SystemExit,
            w\<lparr>devices := devs, paths := ps, set_paths := [], clock := clock w + 2,
              trace := trace w @
                [Run adf_command, Run find_command, Print no_endpoints_message]\<rparr>)"
    using assms by (simp add: EnableTelemetry_def run_def emit_def Let_def)
  have "main sh =
          Some (0, \<lparr>devices = devs, paths = ps, set_paths = [], clock = 2,
                    trace = [Run adf_command, Run find_command,
                             Print no_endpoints_message]\<rparr>)" if "w = world_init"
    using e unfolding that main_def by (simp add: world_init_def)
  with e show ?thesis by blast
qed

theorem no_endpoints_exit_witness:
  "sort_paths (split (snd (quiet (clock world_init + 1) find_command))) = Inr [] \<and>
   build_devices (split (snd (quiet (clock world_init) adf_command))) = (None, []) \<and>
   correlate [] [] [] = (None, []) \<and>
   EnableTelemetry quiet world_init =
     (Some SystemExit,
      \<lparr>devices = [], paths = [], set_paths = [], clock = 2,
         trace = [Run adf_command, Run find_command, Print no_endpoints_message]\<rparr>)"
proof -
  have 1: "sort_paths (split (snd (quiet (clock world_init + 1) find_command))) = Inr []"
    by (simp add: quiet_def split_def sort_paths_def)
  have 2: "build_devices (split (snd (quiet (clock world_init) adf_command))) = (None, [])"
    by (simp add: quiet_def split_def build_devices_def scan_loop_end)
  have 3: "correlate [] [] [] = (None, [])" by simp
  show ?thesis
    using no_endpoints_exit [OF 1 2 3] 1 2 3 by (simp add: world_init_def)
qed

text \<open>
  The claim as the specification words it fails on the host where both commands print
  nothing: the exit status is 0, and the message is printed on standard output.
\<close>

theorem no_endpoints_status_is_0:
  "main quiet =
     Some (0, \<lparr>devices = [], paths = [], set_paths = [], clock = 2,
               trace = [Run adf_command, Run find_command, Print no_endpoints_message]\<rparr>)"
  by code_simp

text \<open>
  C6 (the code departs from the claim). A candidate of the supported type that is up and
  has no \<^verbatim>\<open>bsf:\<close> token is recorded with the bus \<^verbatim>\<open>None\<close>; with one path to correlate, the
  test \<^verbatim>\<open>devices[i][1] in path\<close> raises \<^verbatim>\<open>TypeError\<close>, and at start-up the process ends with
  a traceback and status 1.
\<close>

theorem missing_bsf_raises_TypeError:
  "EnableTelemetry host_no_bsf world_init =
     (Some TypeError,
      \<lparr>devices = [(Some ''qat_dev0'', None)], paths = [path_6b], set_paths = [], clock = 2,
         trace = [Run adf_command, Run find_command]\<rparr>)"
  by code_simp

lemma missing_bsf_main:
  "main host_no_bsf =
     Some (1, \<lparr>devices = [(Some ''qat_dev0'', None)], paths = [path_6b], set_paths = [],
               clock = 2, trace = [Run adf_command, Run find_command, Stderr traceback]\<rparr>)"
  by code_simp

subsection \<open>The render loop\<close>

lemma parse_loop_end: "length output \<le> i \<Longrightarrow> parse_loop output i vs = (None, vs)"
  by (subst parse_loop.simps) simp

lemma parse_loop_step:
  "i < length output \<Longrightarrow> parse_step output i vs = Inr vs' \<Longrightarrow>
   parse_loop output i vs = parse_loop output (Suc i) vs'"
  by (subst parse_loop.simps) simp

lemma parse_loop_raise:
  "i < length output \<Longrightarrow> parse_step output i vs = Inl e \<Longrightarrow>
   parse_loop output i vs = (Some e, vs)"
  by (subst parse_loop.simps) simp

lemma parse_step_keeps:
  assumes "parse_step output i vs = Inr vs'" "map_of counter_vars (output ! i) \<noteq> Some x"
  shows "vs' x = vs x"
  using assms by (auto simp: parse_step_def split: option.splits sum.splits)

lemma parse_loop_keeps:
  assumes "\<forall>j. i \<le> j \<and> j < length output \<longrightarrow> map_of counter_vars (output ! j) \<noteq> Some x"
  shows "snd (parse_loop output i vs) x = vs x"
  using assms
proof (induction "length output - i" arbitrary: i vs)
  case 0
  then show ?case by (simp add: parse_loop_end)
next
  case (Suc n)
  then have lt: "i < length output" by simp
  show ?case
  proof (cases "parse_step output i vs")
    case (Inl e)
    then show ?thesis by (simp add: parse_loop_raise[OF lt])
  next
    case (Inr vs')
    have k: "vs' x = vs x" using parse_step_keeps[OF Inr] Suc.prems lt by simp
    have "snd (parse_loop output (Suc i) vs') x = vs' x"
      using Suc.hyps(1)[of "Suc i" vs'] Suc.hyps(2) Suc.prems by auto
    then show ?thesis using k by (simp add: parse_loop_step[OF lt Inr])
  qed
qed

lemma map_of_unique:
  assumes "distinct (map snd kvs)" "map_of kvs t = Some x" "(k, x) \<in> set kvs"
  shows "t = k"
  using assms
proof (induction kvs)
  case Nil
  then show ?case by simp
next
  case (Cons a kvs)
  obtain k' x' where a: "a = (k', x')" by (cases a)
  have nx: "\<forall>p \<in> set kvs. snd p \<noteq> x'" using Cons.prems(1) a by auto
  show ?case
  proof (cases "t = k'")
    case True
    then have "x = x'" using Cons.prems(2) a by simp
    then have "(k, x) \<notin> set kvs" using nx by auto
    then show ?thesis using Cons.prems(3) a True by simp
  next
    case False
    then have m: "map_of kvs t = Some x" using Cons.prems(2) a by simp
    then have "(t, x) \<in> set kvs" by (rule map_of_SomeD)
    then have "x \<noteq> x'" using nx by auto
    then have "(k, x) \<in> set kvs" using Cons.prems(3) a by simp
    then show ?thesis using Cons.IH m Cons.prems(1) by simp
  qed
qed

lemma counter_vars_distinct: "distinct (map snd counter_vars)"
  by (simp add: counter_vars_def)

lemma missing_key_keeps:
  assumes "(k, x) \<in> set counter_vars" "k \<notin> set output"
  shows "snd (parse_loop output 0 vs) x = vs x"
proof (rule parse_loop_keeps, intro allI impI notI)
  fix j assume j: "0 \<le> j \<and> j < length output" and m: "map_of counter_vars (output ! j) = Some x"
  have "output ! j = k" using map_of_unique[OF counter_vars_distinct m assms(1)] .
  then show False using assms(2) j by (metis nth_mem)
qed

lemma sum_vars_unbound:
  "x \<in> set xs \<Longrightarrow> vs x = None \<Longrightarrow> \<exists>e. sum_vars vs xs = Inl e"
  by (induction xs) (auto simp: int_var_def read_var_def split: sum.splits)

lemma category_unbound:
  "x \<in> set xs \<Longrightarrow> vs x = None \<Longrightarrow> \<exists>e. category vs xs = Inl e"
  using sum_vars_unbound[of x xs vs] by (auto simp: category_def)

lemma aggregate_unbound:
  assumes "x \<in> set (decompress_vars @ pke_vars @ cph_vars @ ath_vars @ ucs_vars)" "vs x = None"
  shows "\<exists>e. aggregate vs = Inl e"
proof -
  have "(\<exists>e. category vs decompress_vars = Inl e) \<or> (\<exists>e. category vs pke_vars = Inl e) \<or>
        (\<exists>e. category vs cph_vars = Inl e) \<or> (\<exists>e. category vs ath_vars = Inl e) \<or>
        (\<exists>e. category vs ucs_vars = Inl e)"
    using assms category_unbound[of x _ vs] by auto
  then show ?thesis by (auto simp: aggregate_def split: sum.splits)
qed

lemma render_row_unbound:
  assumes "x \<in> set row_vars" "vs x = None"
  shows "\<exists>e. fst (render_row d cnt vs w) = Some e"
proof -
  consider "x \<in> set (decompress_vars @ pke_vars @ cph_vars @ ath_vars @ ucs_vars)"
    | "x = ''latency''" | "x = ''compression''"
    using assms(1) by (auto simp: row_vars_def)
  then show ?thesis
  proof cases
    case 1
    then obtain e where "aggregate vs = Inl e" using aggregate_unbound assms(2) by blast
    then show ?thesis by (simp add: render_row_def)
  next
    case 2
    then have "int_var vs ''latency'' = Inl UnboundLocalError"
      using assms(2) by (simp add: int_var_def read_var_def)
    then show ?thesis by (auto simp: render_row_def split: sum.splits)
  next
    case 3
    then have "read_var vs ''compression'' = Inl UnboundLocalError"
      using assms(2) by (simp add: read_var_def)
    then show ?thesis by (auto simp: render_row_def split: sum.splits)
  qed
qed

lemma render_row_world:
  assumes "render_row d cnt vs w = (Some e, w')"
  shows "w' = w \<or> (\<exists>n. fst d = Some n \<and> w' = emit (Addstr (4 + cnt) 10 (n @ placeholder)) w)"
  using assms
  by (auto simp: render_row_def py_concat_def split: sum.splits option.splits if_splits)

lemma render_row_ok:
  assumes "render_row d cnt vs w = (None, w')"
  shows "\<exists>n u c lat l. fst d = Some n \<and> aggregate vs = Inr u \<and> vs ''compression'' = Some c \<and>
           vs ''latency'' = Some lat \<and> py_int lat = Inr l \<and>
           w' = w\<lparr>trace := trace w @
                  (if l = 0 then [Addstr (4 + cnt) 10 (n @ placeholder)] else []) @
                  [Addstr (4 + cnt) 10 (row_text (n @ tab) c u lat)]\<rparr>"
  using assms
  by (auto simp: render_row_def py_concat_def int_var_def read_var_def emit_def
      split: sum.splits option.splits if_splits)


lemma counter_vars_row_vars: "(k, x) \<in> set counter_vars \<Longrightarrow> x \<in> set row_vars"
  by (auto simp: counter_vars_def row_vars_def decompress_vars_def pke_vars_def cph_vars_def
      ath_vars_def ucs_vars_def)

lemma render_row_globals:
  assumes "render_row d cnt vs w = (e, w')"
  shows "devices w' = devices w \<and> paths w' = paths w \<and> set_paths w' = set_paths w \<and>
         clock w' = clock w"
proof (cases e)
  case None
  then show ?thesis using render_row_ok[of d cnt vs w w'] assms by auto
next
  case (Some a)
  then show ?thesis using render_row_world[of d cnt vs w a w'] assms by (auto simp: emit_def)
qed

lemma render_device_unfold:
  assumes "cnt < length (set_paths w)"
  shows "render_device sh d cnt (w, vs) =
     (let w1 = w\<lparr>clock := clock w + 1, trace := trace w @ [Run (cat_command (set_paths w ! cnt))]\<rparr>;
          output = split (snd (sh (clock w) (cat_command (set_paths w ! cnt))))
      in case parse_loop output 0 vs of
           (Some e, vs1) \<Rightarrow> (Some e, w1, vs1)
         | (None, vs1) \<Rightarrow> (case render_row d cnt vs1 w1 of (e, w2) \<Rightarrow> (e, w2, vs1)))"
  using assms by (simp add: render_device_def item_def run_def cat_command_def Let_def)

lemma render_device_index: "length (set_paths w) \<le> cnt \<Longrightarrow> render_device sh d cnt (w, vs) = (Some IndexError, w, vs)"
  by (simp add: render_device_def item_def)

lemma render_device_globals:
  assumes "render_device sh d cnt (w, vs) = (e, w', vs')"
  shows "devices w' = devices w \<and> paths w' = paths w \<and> set_paths w' = set_paths w"
proof (cases "cnt < length (set_paths w)")
  case False
  then show ?thesis using assms by (simp add: render_device_index)
next
  case True
  show ?thesis
    using assms unfolding render_device_unfold[OF True] Let_def
    by (auto split: prod.splits option.splits dest!: render_row_globals)
qed

lemma render_device_ok:
  assumes "render_device sh d cnt (w, vs) = (None, w', vs')"
  shows "cnt < length (set_paths w) \<and>
         (\<exists>n rows. fst d = Some n \<and>
            trace w' = trace w @ Run (cat_command (set_paths w ! cnt)) # rows \<and> rows \<noteq> [] \<and>
            (\<forall>ev \<in> set rows. \<exists>t. ev = Addstr (4 + cnt) 10 (n @ tab @ t)))"
proof -
  have lt: "cnt < length (set_paths w)"
    using assms by (cases "cnt < length (set_paths w)") (auto simp: render_device_index)
  let ?w1 = "w\<lparr>clock := clock w + 1, trace := trace w @ [Run (cat_command (set_paths w ! cnt))]\<rparr>"
  obtain vs1 where r: "render_row d cnt vs1 ?w1 = (None, w')"
    using assms unfolding render_device_unfold[OF lt] Let_def
    by (auto split: prod.splits option.splits)
  obtain n u c lat l where n: "fst d = Some n"
    and "aggregate vs1 = Inr u" "vs1 ''compression'' = Some c" "vs1 ''latency'' = Some lat"
      "py_int lat = Inr l"
    and w': "w' = ?w1\<lparr>trace := trace ?w1 @
                  (if l = 0 then [Addstr (4 + cnt) 10 (n @ placeholder)] else []) @
                  [Addstr (4 + cnt) 10 (row_text (n @ tab) c u lat)]\<rparr>"
    using render_row_ok[OF r] by (elim exE conjE)
  let ?rows = "(if l = 0 then [Addstr (4 + cnt) 10 (n @ placeholder)] else []) @
                  [Addstr (4 + cnt) 10 (row_text (n @ tab) c u lat)]"
  have "trace w' = trace w @ Run (cat_command (set_paths w ! cnt)) # ?rows" using w' by simp
  moreover have "?rows \<noteq> []" by simp
  moreover have "\<forall>ev \<in> set ?rows. \<exists>t. ev = Addstr (4 + cnt) 10 (n @ tab @ t)"
    by (auto simp: placeholder_def row_text_def)
  ultimately show ?thesis using lt n by blast
qed

lemma render_device_missing_key:
  assumes "cnt < length (set_paths w)" "(k, x) \<in> set counter_vars"
    and "k \<notin> set (split (snd (sh (clock w) (cat_command (set_paths w ! cnt)))))"
    and "vs x = None"
  shows "\<exists>e w' vs'. render_device sh d cnt (w, vs) = (Some e, w', vs') \<and>
           (\<exists>rows. trace w' = trace w @ Run (cat_command (set_paths w ! cnt)) # rows \<and>
              (rows = [] \<or> rows = [Addstr (4 + cnt) 10 (the (fst d) @ placeholder)]))"
proof -
  let ?w1 = "w\<lparr>clock := clock w + 1, trace := trace w @ [Run (cat_command (set_paths w ! cnt))]\<rparr>"
  let ?out = "split (snd (sh (clock w) (cat_command (set_paths w ! cnt))))"
  obtain pe vs1 where p: "parse_loop ?out 0 vs = (pe, vs1)" by (cases "parse_loop ?out 0 vs")
  show ?thesis
  proof (cases pe)
    case (Some e)
    then have "render_device sh d cnt (w, vs) = (Some e, ?w1, vs1)"
      using p by (simp add: render_device_unfold[OF assms(1)])
    then show ?thesis by simp
  next
    case None
    have "vs1 x = None" using missing_key_keeps[OF assms(2,3), of vs] p assms(4) by simp
    then obtain e where "fst (render_row d cnt vs1 ?w1) = Some e"
      using render_row_unbound[OF counter_vars_row_vars[OF assms(2)]] by blast
    then obtain w2 where r: "render_row d cnt vs1 ?w1 = (Some e, w2)"
      by (cases "render_row d cnt vs1 ?w1") simp
    have "render_device sh d cnt (w, vs) = (Some e, w2, vs1)"
      using p None r by (simp add: render_device_unfold[OF assms(1)])
    moreover have "\<exists>rows. trace w2 = trace w @ Run (cat_command (set_paths w ! cnt)) # rows \<and>
              (rows = [] \<or> rows = [Addstr (4 + cnt) 10 (the (fst d) @ placeholder)])"
      using render_row_world[OF r] by (auto simp: emit_def)
    ultimately show ?thesis by blast
  qed
qed

lemma render_devices_append:
  "render_devices sh (pre @ rest) cnt s =
     (case render_devices sh pre cnt s of
        (Some e, r) \<Rightarrow> (Some e, r)
      | (None, s', c) \<Rightarrow> render_devices sh rest c s')"
  by (induction pre arbitrary: cnt s) (auto split: prod.splits option.splits)

lemma render_devices_count:
  "render_devices sh ds cnt s = (None, s', c) \<Longrightarrow> c = cnt + length ds"
proof (induction ds arbitrary: cnt s)
  case Nil
  then show ?case by simp
next
  case (Cons d ds)
  obtain e1 s1 where r: "render_device sh d cnt s = (e1, s1)"
    by (cases "render_device sh d cnt s") auto
  show ?case
  proof (cases e1)
    case None
    then have "render_devices sh ds (cnt + 1) s1 = (None, s', c)" using Cons.prems r by simp
    then have "c = cnt + 1 + length ds" by (rule Cons.IH)
    then show ?thesis by simp
  next
    case (Some a)
    then show ?thesis using Cons.prems r by simp
  qed
qed

lemma render_devices_globals:
  "render_devices sh ds cnt (w, vs) = (e, (w', vs'), c) \<Longrightarrow>
   devices w' = devices w \<and> paths w' = paths w \<and> set_paths w' = set_paths w"
proof (induction ds arbitrary: cnt w vs)
  case Nil
  then show ?case by simp
next
  case (Cons d ds)
  obtain e1 w1 vs1 where r: "render_device sh d cnt (w, vs) = (e1, w1, vs1)"
    by (cases "render_device sh d cnt (w, vs)") auto
  note g = render_device_globals[OF r]
  show ?case
  proof (cases e1)
    case None
    then have "render_devices sh ds (cnt + 1) (w1, vs1) = (e, (w', vs'), c)"
      using Cons.prems r by simp
    then show ?thesis using Cons.IH g by metis
  next
    case (Some a)
    then show ?thesis using Cons.prems r g by auto
  qed
qed

lemma render_devices_nth:
  assumes "render_devices sh ds cnt s = (None, s', c)" "i < length ds"
  shows "\<exists>si si'. render_devices sh (take i ds) cnt s = (None, si, cnt + i) \<and>
           render_device sh (ds ! i) (cnt + i) si = (None, si')"
proof -
  have ds: "ds = take i ds @ ds ! i # drop (Suc i) ds" using assms(2) by (simp add: id_take_nth_drop)
  obtain e1 si c1 where p: "render_devices sh (take i ds) cnt s = (e1, si, c1)"
    by (cases "render_devices sh (take i ds) cnt s") auto
  have "render_devices sh (take i ds @ ds ! i # drop (Suc i) ds) cnt s = (None, s', c)"
    using assms(1) ds by simp
  then have e1: "e1 = None" and r: "render_devices sh (ds ! i # drop (Suc i) ds) c1 si = (None, s', c)"
    unfolding render_devices_append p by (cases e1; simp)+
  have c1: "c1 = cnt + i" using render_devices_count[of sh "take i ds" cnt s si c1] p e1 assms(2) by simp
  obtain si' where "render_device sh (ds ! i) c1 si = (None, si')"
    using r by (auto split: prod.splits option.splits)
  then show ?thesis using p e1 c1 by auto
qed

lemma draw_head_globals [simp]:
  "devices (draw_head w) = devices w" "set_paths (draw_head w) = set_paths w"
  "paths (draw_head w) = paths w" "clock (draw_head w) = clock w"
  by (simp_all add: draw_head_def emit_def)

lemma tick_raises:
  assumes "render_devices sh (devices (globals s)) 0 (draw_head (globals s), vars s) = (Some e, (w4, vs), c)"
  shows "tick sh s = (Some e, s\<lparr>refresh_counter := refresh_counter s + 1, globals := w4, vars := vs\<rparr>)"
  using assms by (simp add: tick_def Let_def)

text \<open>
  C5 (as the code has it). In a turn of the render loop, let the devices before \<open>d\<close> be
  rendered without an exception, and let the dump read for \<open>d\<close> lack the key \<open>k\<close> of a
  variable \<open>x\<close> that no earlier dump has assigned. Then the turn raises, the handler ends
  \<^verbatim>\<open>pbar\<close>, and after the dump of \<open>d\<close> was read nothing more happens but, at most, the row of
  zeros of \<open>d\<close> itself: no row of a later device, no refresh, no further turn.
\<close>

theorem missing_key_ends_render_loop:
  assumes "devices (globals s) = pre @ d # rest"
    and "render_devices sh pre 0 (draw_head (globals s), vars s) = (None, (w, vs), length pre)"
    and "length pre < length (set_paths w)"
    and "(k, x) \<in> set counter_vars"
    and "k \<notin> set (split (snd (sh (clock w) (cat_command (set_paths w ! length pre)))))"
    and "vs x = None"
  shows "\<exists>e s'. tick sh s = (Some e, s') \<and> pbar_loop sh s = Some s' \<and>
           (\<exists>rows. trace (globals s') =
                     trace w @ Run (cat_command (set_paths w ! length pre)) # rows \<and>
              (rows = [] \<or> rows = [Addstr (4 + length pre) 10 (the (fst d) @ placeholder)]))"
proof -
  obtain e w' vs' rows where r: "render_device sh d (length pre) (w, vs) = (Some e, w', vs')"
    and t: "trace w' = trace w @ Run (cat_command (set_paths w ! length pre)) # rows"
    and rows: "rows = [] \<or> rows = [Addstr (4 + length pre) 10 (the (fst d) @ placeholder)]"
    using render_device_missing_key[of "length pre" w k x sh vs d, OF assms(3,4,5,6)] by blast
  have "render_devices sh (devices (globals s)) 0 (draw_head (globals s), vars s) =
        (Some e, (w', vs'), length pre)"
    unfolding assms(1) render_devices_append assms(2) using r by simp
  then have tk: "tick sh s =
      (Some e, s\<lparr>refresh_counter := refresh_counter s + 1, globals := w', vars := vs'\<rparr>)"
    by (rule tick_raises)
  show ?thesis using tk pbar_loop_raise[OF tk] t rows by auto
qed

text \<open>
  C10. (1) When every device has a bus, \<^verbatim>\<open>set_paths\<close> is, path by path in the order of
  \<^verbatim>\<open>paths\<close>, one copy of the path for every device whose bus is a substring of it: a path
  matched by \<open>k\<close> devices appears \<open>k\<close> times. (2) In a loop over the devices that raises
  nothing, the turn for the \<open>i\<close>-th device reads the dump of \<^verbatim>\<open>set_paths[i]\<close> and writes its
  rows at line \<open>4 + i\<close> under the name of the \<open>i\<close>-th device: the pairing is by position.
\<close>

theorem positional_pairing:
  "((\<forall>d \<in> set devs. snd d \<noteq> None) \<longrightarrow>
      correlate ps devs [] =
        (None, concat (map (\<lambda>p. replicate (length (filter (bus_in p) devs)) p) ps)))
   \<and> (render_devices sh ds 0 (w, vs) = (None, s', c) \<and> i < length ds \<longrightarrow>
        (\<exists>wi vsi wi' vsi' n rows.
           render_devices sh (take i ds) 0 (w, vs) = (None, (wi, vsi), i) \<and>
           render_device sh (ds ! i) i (wi, vsi) = (None, wi', vsi') \<and>
           i < length (set_paths w) \<and> fst (ds ! i) = Some n \<and>
           trace wi' = trace wi @ Run (cat_command (set_paths w ! i)) # rows \<and> rows \<noteq> [] \<and>
           (\<forall>ev \<in> set rows. \<exists>t. ev = Addstr (4 + i) 10 (n @ tab @ t))))"
proof (intro conjI impI)
  assume "\<forall>d \<in> set devs. snd d \<noteq> None"
  then show "correlate ps devs [] =
        (None, concat (map (\<lambda>p. replicate (length (filter (bus_in p) devs)) p) ps))"
    using correlate_ok[of devs ps "[]"] by simp
next
  assume a: "render_devices sh ds 0 (w, vs) = (None, s', c) \<and> i < length ds"
  obtain si si' where p: "render_devices sh (take i ds) 0 (w, vs) = (None, si, 0 + i)"
    and r: "render_device sh (ds ! i) (0 + i) si = (None, si')"
    using render_devices_nth[of sh ds 0 "(w, vs)" s' c i] a by blast
  obtain wi vsi where si: "si = (wi, vsi)" by (cases si)
  obtain wi' vsi' where si': "si' = (wi', vsi')" by (cases si')
  have g: "set_paths wi = set_paths w" using render_devices_globals[of sh "take i ds" 0 w vs None wi vsi i] p si by simp
  show "\<exists>wi vsi wi' vsi' n rows.
           render_devices sh (take i ds) 0 (w, vs) = (None, (wi, vsi), i) \<and>
           render_device sh (ds ! i) i (wi, vsi) = (None, wi', vsi') \<and>
           i < length (set_paths w) \<and> fst (ds ! i) = Some n \<and>
           trace wi' = trace wi @ Run (cat_command (set_paths w ! i)) # rows \<and> rows \<noteq> [] \<and>
           (\<forall>ev \<in> set rows. \<exists>t. ev = Addstr (4 + i) 10 (n @ tab @ t))"
    using render_device_ok[of sh "ds ! i" i wi vsi wi' vsi'] p r si si' g by auto
qed

subsection \<open>Rounding and the aggregated percentages\<close>

lemma rhe_int [simp]: "round_half_even (of_int k) = k"
  by (simp add: round_half_even_def)

lemma rhe_near:
  assumes "of_int q - 1 / 2 < y" "y < of_int q + 1 / 2"
  shows "round_half_even y = q"
proof (cases "of_int q \<le> y")
  case True
  then have f: "\<lfloor>y\<rfloor> = q" using assms(2) by (simp add: floor_unique)
  then show ?thesis using assms(2) by (simp add: round_half_even_def)
next
  case False
  then have f: "\<lfloor>y\<rfloor> = q - 1" using assms(1) by (intro floor_unique) auto
  then show ?thesis using assms(1) by (simp add: round_half_even_def)
qed

lemma rhe_error: "\<bar>of_int (round_half_even z) - z\<bar> \<le> 1 / 2"
proof -
  have "of_int \<lfloor>z\<rfloor> \<le> z" "z < of_int \<lfloor>z\<rfloor> + 1" by linarith+
  then show ?thesis by (auto simp: round_half_even_def Let_def)
qed

lemma floor_log2_le:
  assumes "0 < x"
  shows "2 powi (floor_log2 x) \<le> x"
proof -
  obtain a b where q: "quotient_of x = (a, b)" by (cases "quotient_of x")
  have b: "0 < b" using quotient_of_denom_pos[OF q] .
  have x: "x = of_int a / of_int b" using quotient_of_div[OF q] .
  have a: "0 < a" using assms b x by (simp add: zero_less_divide_iff)
  let ?la = "bitlen a" and ?lb = "bitlen b"
  have la: "2 ^ nat (?la - 1) \<le> a" and la1: "1 \<le> ?la" using bitlen_bounds[OF a] a by (auto simp: bitlen_alt_def)
  have lb: "b < 2 ^ nat ?lb" and lb0: "0 \<le> ?lb" using bitlen_bounds[OF b] by (auto simp: bitlen_alt_def)
  have "2 powi (?la - ?lb - 1) \<le> x"
  proof -
    have "(2 :: rat) powi (?la - ?lb - 1) = 2 powi (?la - 1) / 2 powi ?lb"
      using power_int_diff[of "2 :: rat" "?la - 1" ?lb] by (simp add: algebra_simps)
    also have "\<dots> = 2 ^ nat (?la - 1) / 2 ^ nat ?lb"
      using la1 lb0 by (simp add: power_int_def)
    also have "\<dots> \<le> of_int a / of_int b"
    proof -
      have A: "(2 :: rat) ^ nat (?la - 1) \<le> of_int a"
        using la by (metis of_int_le_iff of_int_numeral of_int_power)
      have B: "(of_int b :: rat) \<le> 2 ^ nat ?lb"
        using lb by (metis less_imp_le of_int_le_iff of_int_numeral of_int_power)
      have "(0 :: rat) \<le> of_int a" "(0 :: rat) < of_int b" using a b by simp_all
      then show ?thesis using A B by (intro frac_le)
    qed
    finally show ?thesis using x by simp
  qed
  then show ?thesis by (simp add: floor_log2_def q Let_def)
qed

lemma floor_log2_bound:
  assumes "0 < x" "x < 2 ^ n"
  shows "floor_log2 x < int n"
proof (rule ccontr)
  assume "\<not> floor_log2 x < int n"
  then have "int n \<le> floor_log2 x" by simp
  then have "(2 :: rat) powi (int n) \<le> 2 powi (floor_log2 x)"
    by (intro power_int_increasing) auto
  then have "(2 :: rat) ^ n \<le> x" using floor_log2_le[OF assms(1)] by simp
  then show False using assms(2) by simp
qed


lemma near_third:
  assumes "n = 3 \<or> n = 6" "\<not> n dvd 4 * s"
  shows "\<exists>c :: int. \<bar>(of_int s / of_int n :: rat) - of_int c\<bar> \<le> 1 / 3"
proof -
  define q where "q = s div n"
  define r where "r = s mod n"
  have s: "s = n * q + r" by (simp add: q_def r_def)
  have n0: "(of_int n :: rat) \<noteq> 0" using assms(1) by auto
  have "(of_int s :: rat) = of_int n * of_int q + of_int r"
    using s by (metis of_int_add of_int_mult)
  then have x: "(of_int s / of_int n :: rat) = of_int q + of_int r / of_int n"
    using n0 by (simp add: field_simps)
  have r: "0 \<le> r" "r < n" using assms(1) by (auto simp: r_def)
  have nd: "\<not> 3 dvd r"
  proof
    assume "3 dvd r"
    moreover have "3 dvd n" using assms(1) by auto
    ultimately have "3 dvd s" unfolding s by simp
    then have "n dvd 4 * s" using assms(1) by (elim disjE) (auto elim!: dvdE)
    then show False using assms(2) by simp
  qed
  consider "n = 3" "r = 1" | "n = 3" "r = 2" | "n = 6" "r = 1" | "n = 6" "r = 2"
    | "n = 6" "r = 4" | "n = 6" "r = 5"
  proof -
    have "r \<noteq> 0" "r \<noteq> 3" using nd by auto
    then have "(n = 3 \<and> (r = 1 \<or> r = 2)) \<or> (n = 6 \<and> (r = 1 \<or> r = 2 \<or> r = 4 \<or> r = 5))"
      using r assms(1) by auto
    then show ?thesis using that by blast
  qed
  then show ?thesis
  proof cases
    case 1 then show ?thesis unfolding x by (intro exI[of _ q]) simp
  next
    case 2 then show ?thesis unfolding x by (intro exI[of _ "q + 1"]) simp
  next
    case 3 then show ?thesis unfolding x by (intro exI[of _ q]) simp
  next
    case 4 then show ?thesis unfolding x by (intro exI[of _ q]) simp
  next
    case 5 then show ?thesis unfolding x by (intro exI[of _ "q + 1"]) simp
  next
    case 6 then show ?thesis unfolding x by (intro exI[of _ "q + 1"]) simp
  qed
qed

lemma binary64_small:
  assumes "0 < s" "s < 2 ^ 52" "n = 2 \<or> n = 3 \<or> n = 4 \<or> n = 6"
  shows "\<exists>y. binary64 (of_int s / of_int n) = Inr y \<and>
             round_half_even y = round_half_even (of_int s / of_int n)"
proof -
  define x :: rat where "x = of_int s / of_int n"
  have n2: "2 \<le> n" "0 < n" using assms(3) by auto
  have x0: "0 < x" using assms(1) n2 by (simp add: x_def)
  have "(of_int s :: rat) < 2 ^ 52" using assms(2) by (metis of_int_less_iff of_int_numeral of_int_power)
  moreover have "(2 :: rat) \<le> of_int n" using n2 by simp
  ultimately have xlt: "x < 2 ^ 51" using n2 by (simp add: x_def field_simps)
  define e where "e = max (floor_log2 \<bar>x\<bar>) (- 1022)"
  have e: "e \<le> 50" using floor_log2_bound[OF x0 xlt] x0 by (simp add: e_def)
  define k where "k = nat (52 - e)"
  have k: "2 \<le> k" using e by (simp add: k_def)
  define u :: rat where "u = 2 powi (e - 52)"
  have u: "u = 1 / 2 ^ k" using e by (simp add: u_def k_def power_int_def power_inverse field_simps)
  define m where "m = round_half_even (\<bar>x\<bar> / u)"
  define y where "y = of_int m * u"
  have m: "m = round_half_even (x * 2 ^ k)" using x0 by (simp add: m_def u)
  have y: "y = of_int m / 2 ^ k" by (simp add: y_def u)
  have err: "\<bar>y - x\<bar> \<le> 1 / 8"
  proof -
    have "\<bar>of_int m - x * 2 ^ k\<bar> \<le> 1 / 2" unfolding m by (rule rhe_error)
    then have "\<bar>of_int m - x * 2 ^ k\<bar> / 2 ^ k \<le> (1 / 2) / 2 ^ k"
      by (intro divide_right_mono) auto
    moreover have "\<bar>y - x\<bar> = \<bar>of_int m - x * 2 ^ k\<bar> / 2 ^ k"
      unfolding y by (simp add: field_simps abs_divide flip: abs_mult)
    moreover have "(1 / 2) / (2 :: rat) ^ k \<le> 1 / 8"
    proof -
      have "(2 :: rat) ^ 2 \<le> 2 ^ k" using k by (intro power_increasing) auto
      then show ?thesis by (simp add: field_simps)
    qed
    ultimately show ?thesis by linarith
  qed
  have nov: "\<not> 2 powi 1024 \<le> y"
  proof -
    have "(2 :: rat) ^ 51 + 1 / 8 < 2 ^ 52" by simp
    then have "y < 2 ^ 52" using err xlt by linarith
    moreover have "(2 :: rat) ^ 52 \<le> 2 ^ 1024" by (intro power_increasing) auto
    moreover have "(2 :: rat) powi 1024 = 2 ^ 1024" by (simp add: power_int_def)
    ultimately show ?thesis by linarith
  qed
  have yeq: "y = of_int (round_half_even (\<bar>x\<bar> / 2 powi (max (floor_log2 \<bar>x\<bar>) (- 1022) - 52)))
                  * 2 powi (max (floor_log2 \<bar>x\<bar>) (- 1022) - 52)"
    by (simp only: y_def m_def u_def e_def)
  have b: "binary64 x = Inr y"
    using x0 nov unfolding yeq binary64_def Let_def by simp
  have "round_half_even y = round_half_even x"
  proof (cases "n dvd 4 * s")
    case True
    then obtain j where j: "4 * s = n * j" by (auto elim: dvdE)
    have "of_int (4 * s) = (of_int (n * j) :: rat)" using j by simp
    then have x4: "x = of_int j / 4" using n2 by (simp add: x_def field_simps)
    have "k = (k - 2) + 2" using k by simp
    then have "(2 :: rat) ^ k = 2 ^ (k - 2) * 4" by (metis power_add power2_eq_square numeral_Bit0 mult_2 numeral_One one_add_one power_one_right)
    then have "x * 2 ^ k = of_int (j * 2 ^ (k - 2))" by (simp add: x4)
    then have "m = j * 2 ^ (k - 2)" unfolding m by (simp only: rhe_int)
    then have "y = x" using \<open>x * 2 ^ k = of_int (j * 2 ^ (k - 2))\<close> unfolding y
      by (metis nonzero_mult_div_cancel_right power_not_zero zero_neq_numeral)
    then show ?thesis by simp
  next
    case False
    then have n36: "n = 3 \<or> n = 6" using assms(3) by (auto simp: dvd_def)
    obtain c :: int where c: "\<bar>x - of_int c\<bar> \<le> 1 / 3"
      using near_third[OF n36 False] unfolding x_def by blast
    have "of_int c - 1 / 2 < x" "x < of_int c + 1 / 2" using c by linarith+
    then have "round_half_even x = c" by (rule rhe_near)
    moreover have "of_int c - 1 / 2 < y" "y < of_int c + 1 / 2" using c err by linarith+
    then have "round_half_even y = c" by (rule rhe_near)
    ultimately show ?thesis by simp
  qed
  then show ?thesis using b unfolding x_def by blast
qed

lemma utilization_small:
  assumes "0 < s" "s < 2 ^ 52" "n = 2 \<or> n = 3 \<or> n = 4 \<or> n = 6"
  shows "utilization s n = Inr (round_half_even (of_int s / of_int n))"
proof -
  obtain y where "binary64 (of_int s / of_int n) = Inr y"
    "round_half_even y = round_half_even (of_int s / of_int n)"
    using binary64_small[OF assms] by blast
  then show ?thesis using assms by (auto simp: utilization_def truediv_def)
qed

text \<open>
  The same function computed without the detour through the double where the detour
  changes nothing; evaluation uses this equation.
\<close>

lemma utilization_code [code]:
  "utilization amount n =
     (if 0 < amount then
        (if amount < 2 ^ 52 \<and> (n = 2 \<or> n = 3 \<or> n = 4 \<or> n = 6)
         then Inr (round_half_even (of_int amount / of_int n))
         else (case truediv amount n of Inl e \<Rightarrow> Inl e | Inr q \<Rightarrow> Inr (round_half_even q)))
      else Inr amount)"
  using utilization_small[of amount n] by (auto simp: utilization_def)

lemma sum_vars_values:
  "map (int_var vs) xs = map Inr vals \<Longrightarrow> sum_vars vs xs = Inr (sum_list vals)"
proof (induction xs arbitrary: vals)
  case Nil
  then show ?case by simp
next
  case (Cons x xs)
  then obtain v rest where "vals = v # rest" "int_var vs x = Inr v"
    "map (int_var vs) xs = map Inr rest" by (cases vals) auto
  then show ?case using Cons.IH[of rest] by simp
qed

lemma category_lengths:
  "length decompress_vars = 3" "length pke_vars = 6" "length cph_vars = 4"
  "length ath_vars = 4" "length ucs_vars = 2"
  by (simp_all add: decompress_vars_def pke_vars_def cph_vars_def ath_vars_def ucs_vars_def)

text \<open>
  C2 (as the code has it). For each of the five categories, whose \<open>N\<close> variables hold the
  integers \<open>vals\<close>: when the sum is 0 or negative the sum itself is reported (0 for a sum of
  0); when the sum is positive and below \<open>2 ^ 52\<close>, the report is the sum divided by \<open>N\<close>
  and rounded to the nearest integer, a tie going to the even one. The latency is written
  at the end of the row as the token that was read, unconverted.
\<close>

theorem aggregated_percentage:
  assumes "xs \<in> {decompress_vars, pke_vars, cph_vars, ath_vars, ucs_vars}"
    and "map (int_var vs) xs = map Inr vals"
  shows "(sum_list vals \<le> 0 \<longrightarrow> category vs xs = Inr (sum_list vals)) \<and>
         (0 < sum_list vals \<and> sum_list vals < 2 ^ 52 \<longrightarrow>
            category vs xs =
              Inr (round_half_even (of_int (sum_list vals) / of_int (int (length xs))))) \<and>
         (\<forall>d cnt w w'. render_row d cnt vs w = (None, w') \<longrightarrow>
            (\<exists>lat t. vs ''latency'' = Some lat \<and>
               last (trace w') = Addstr (4 + cnt) 10 (t @ tab @ lat)))"
proof (intro conjI impI allI)
  have s: "sum_vars vs xs = Inr (sum_list vals)" using sum_vars_values[OF assms(2)] .
  have n: "int (length xs) = 2 \<or> int (length xs) = 3 \<or> int (length xs) = 4 \<or> int (length xs) = 6"
    using assms(1) category_lengths by auto
  show "category vs xs = Inr (sum_list vals)" if "sum_list vals \<le> 0"
    using that s by (simp add: category_def utilization_def)
  show "category vs xs = Inr (round_half_even (of_int (sum_list vals) / of_int (int (length xs))))"
    if "0 < sum_list vals \<and> sum_list vals < 2 ^ 52"
    using that s utilization_small[OF _ _ n, of "sum_list vals"] by (simp add: category_def)
  show "\<exists>lat t. vs ''latency'' = Some lat \<and> last (trace w') = Addstr (4 + cnt) 10 (t @ tab @ lat)"
    if r: "render_row d cnt vs w = (None, w')" for d cnt w w'
  proof -
    obtain n u c lat l where "fst d = Some n" "aggregate vs = Inr u"
      "vs ''compression'' = Some c" and lat: "vs ''latency'' = Some lat" and "py_int lat = Inr l"
      and w': "w' = w\<lparr>trace := trace w @
                  (if l = 0 then [Addstr (4 + cnt) 10 (n @ placeholder)] else []) @
                  [Addstr (4 + cnt) 10 (row_text (n @ tab) c u lat)]\<rparr>"
      using render_row_ok[OF r] by (elim exE conjE)
    note lat
    moreover have "last (trace w') = Addstr (4 + cnt) 10 (row_text (n @ tab) c u lat)"
      unfolding w' by simp
    moreover have "\<exists>t. row_text (n @ tab) c u lat = t @ tab @ lat"
      unfolding row_text_def by (metis append.assoc)
    ultimately show ?thesis by auto
  qed
qed


subsection \<open>The script on concrete hosts\<close>

theorem missing_key_ends_render_loop_witness:
  "\<exists>e s'. tick (host_two dump_no_dcpr1 (dump_full ''7''))
             (start (host_two dump_no_dcpr1 (dump_full ''7''))) = (Some e, s') \<and>
     pbar_loop (host_two dump_no_dcpr1 (dump_full ''7''))
       (start (host_two dump_no_dcpr1 (dump_full ''7''))) = Some s' \<and>
     (\<exists>rows. trace (globals s') =
        trace (draw_head (globals (start (host_two dump_no_dcpr1 (dump_full ''7'')))))
          @ Run (cat_command path_6b) # rows \<and>
        (rows = [] \<or> rows = [Addstr 4 10 (''qat_dev0'' @ placeholder)]))"
proof -
  let ?H = "host_two dump_no_dcpr1 (dump_full ''7'')"
  let ?d = "(Some ''qat_dev0'', Some ''6b'') :: device"
  let ?w = "draw_head (globals (start ?H))"
  have g: "globals (start ?H) =
      \<lparr>devices = [?d, (Some ''qat_dev1'', Some ''70'')], paths = [path_6b, path_70],
         set_paths = [path_6b, path_70], clock = 4,
         trace = [Run adf_command, Run find_command, Run (enable_command path_6b),
                  Run (enable_command path_70)]\<rparr>"
    unfolding start_def by code_simp
  have 1: "devices (globals (start ?H)) = [] @ ?d # [(Some ''qat_dev1'', Some ''70'')]"
    by (simp add: g)
  have 2: "render_devices ?H [] 0 (?w, vars (start ?H)) = (None, (?w, vars (start ?H)), length ([] :: device list))"
    by simp
  have 3: "length ([] :: device list) < length (set_paths ?w)" by (simp add: g)
  have 4: "(''util_dcpr1'', ''decompression1'') \<in> set counter_vars"
    by (simp add: counter_vars_def)
  have s: "set_paths ?w ! length ([] :: device list) = path_6b" "clock ?w = 4" by (simp_all add: g)
  have "''util_dcpr1'' \<notin> set (split (snd (?H 4 (cat_command path_6b))))"
    by code_simp
  then have 5: "''util_dcpr1'' \<notin>
      set (split (snd (?H (clock ?w) (cat_command (set_paths ?w ! length ([] :: device list))))))"
    unfolding s .
  have 6: "vars (start ?H) ''decompression1'' = None" by (simp add: start_def)
  show ?thesis
    using missing_key_ends_render_loop [OF 1 2 3 4 5 6] unfolding s by simp
qed

text \<open>
  The claim as the specification words it fails on the host whose first dump lacks
  \<^verbatim>\<open>util_dcpr1\<close>: the process ends in the first turn, having read the first dump only; no
  row is written for the second device, whose dump is complete.
\<close>

theorem missing_key_ends_process:
  "main (host_two dump_no_dcpr1 (dump_full ''7'')) =
     Some (0,
       \<lparr>devices = [(Some ''qat_dev0'', Some ''6b''), (Some ''qat_dev1'', Some ''70'')],
          paths = [path_6b, path_70], set_paths = [path_6b, path_70], clock = 5,
          trace = [Run adf_command, Run find_command, Run (enable_command path_6b),
                   Run (enable_command path_70), Addstr 0 10 title, Addstr 2 10 header,
                   Addstr 3 10 rule_line, Run (cat_command path_6b)]\<rparr>)"
  by code_simp

text \<open>
  C7 (the code departs from the claim). The dump of the second device is the same on both
  hosts and lacks \<^verbatim>\<open>util_cpr0\<close>; the compression shown in its row is the value parsed from
  the dump of the first device, 42 on one host and 7 on the other.
\<close>

theorem stale_counter_is_displayed:
  "rows_of (trace (globals (snd (tick (host_two (dump_full ''42'') dump_no_cpr0)
                                   (start (host_two (dump_full ''42'') dump_no_cpr0)))))) =
     [(4, cells [''qat_dev0'', ''42'', ''2'', ''0'', ''0'', ''0'', ''2'', ''700'']),
      (5, cells [''qat_dev1'', ''42'', ''2'', ''0'', ''0'', ''0'', ''2'', ''700'']),
      (6, rule_line)] \<and>
   rows_of (trace (globals (snd (tick (host_two (dump_full ''7'') dump_no_cpr0)
                                   (start (host_two (dump_full ''7'') dump_no_cpr0)))))) =
     [(4, cells [''qat_dev0'', ''7'', ''2'', ''0'', ''0'', ''0'', ''2'', ''700'']),
      (5, cells [''qat_dev1'', ''7'', ''2'', ''0'', ''0'', ''0'', ''2'', ''700'']),
      (6, rule_line)]"
  by code_simp

theorem positional_pairing_witness:
  "correlate [path_6b] [(Some ''qat_dev0'', Some ''6b''), (Some ''qat_dev1'', Some ''6b'')] [] =
     (None, [path_6b, path_6b]) \<and>
   (\<exists>wi vsi wi' vsi' rows.
      render_device (host_two (dump_full ''42'') (dump_full ''7'')) (Some ''qat_dev1'', Some ''70'')
        1 (wi, vsi) = (None, wi', vsi') \<and>
      trace wi' = trace wi @ Run (cat_command path_70) # rows \<and> rows \<noteq> [] \<and>
      (\<forall>ev \<in> set rows. \<exists>t. ev = Addstr (4 + 1) 10 (''qat_dev1'' @ tab @ t)))"
proof -
  let ?H = "host_two (dump_full ''42'') (dump_full ''7'')"
  let ?devs = "[(Some ''qat_dev0'', Some ''6b''), (Some ''qat_dev1'', Some ''6b'')] :: device list"
  let ?ds = "[(Some ''qat_dev0'', Some ''6b''), (Some ''qat_dev1'', Some ''70'')] :: device list"
  let ?w = "draw_head (globals (start ?H))"
  have g: "set_paths ?w = [path_6b, path_70]"
    unfolding start_def by code_simp
  have a: "\<forall>d \<in> set ?devs. snd d \<noteq> None" by simp
  have c: "correlate [path_6b] ?devs [] = (None, [path_6b, path_6b])"
    using positional_pairing [of ?devs "[path_6b]"] a
    by (simp add: bus_in_def path_6b_def sublist_code)
  have "fst (render_devices ?H ?ds 0 (?w, Map.empty)) = None"
    unfolding start_def by code_simp
  then obtain s' k where r: "render_devices ?H ?ds 0 (?w, Map.empty) = (None, s', k)"
    by (cases "render_devices ?H ?ds 0 (?w, Map.empty)") auto
  have "\<exists>wi vsi wi' vsi' n rows.
           render_devices ?H (take 1 ?ds) 0 (?w, Map.empty) = (None, (wi, vsi), 1) \<and>
           render_device ?H (?ds ! 1) 1 (wi, vsi) = (None, wi', vsi') \<and>
           1 < length (set_paths ?w) \<and> fst (?ds ! 1) = Some n \<and>
           trace wi' = trace wi @ Run (cat_command (set_paths ?w ! 1)) # rows \<and> rows \<noteq> [] \<and>
           (\<forall>ev \<in> set rows. \<exists>t. ev = Addstr (4 + 1) 10 (n @ tab @ t))"
    using positional_pairing [of "[]" "[]" ?H ?ds ?w Map.empty s' k 1] r by simp
  then show ?thesis using c unfolding g by auto
qed

text \<open>The example of the specification: a sum of 5 over 3 sub-units is reported as 2.\<close>

theorem aggregated_percentage_witness:
  "map (int_var [''decompression0'' \<mapsto> ''1'', ''decompression1'' \<mapsto> ''2'',
                 ''decompression2'' \<mapsto> ''2'']) decompress_vars = map Inr [1, 2, 2] \<and>
   category [''decompression0'' \<mapsto> ''1'', ''decompression1'' \<mapsto> ''2'',
             ''decompression2'' \<mapsto> ''2''] decompress_vars = Inr 2"
proof -
  let ?vs = "[''decompression0'' \<mapsto> ''1'', ''decompression1'' \<mapsto> ''2'',
              ''decompression2'' \<mapsto> ''2'']"
  have 1: "decompress_vars \<in> {decompress_vars, pke_vars, cph_vars, ath_vars, ucs_vars}"
    by simp
  have 2: "map (int_var ?vs) decompress_vars = map Inr [1, 2, 2]"
    by code_simp
  have 3: "round_half_even (of_int (sum_list [1, 2, 2]) / of_int (int (length decompress_vars))) = 2"
    by code_simp
  show ?thesis
    using aggregated_percentage [OF 1 2] 2 3 by simp
qed

text \<open>
  The claim as the specification words it, for any integers, fails where the sum is
  negative: the sum is reported as it is, neither divided nor rounded.
\<close>

theorem negative_sum_is_reported_raw:
  "category [''decompression0'' \<mapsto> ''-3'', ''decompression1'' \<mapsto> ''0'',
             ''decompression2'' \<mapsto> ''0''] decompress_vars = Inr (- 3) \<and>
   round_half_even (of_int (- 3) / of_int 3) = - 1"
  by code_simp

text \<open>
  Beyond \<open>2 ^ 52\<close> the double in between can change the result: for the sum
  \<open>3 * (2 ^ 53 + 1)\<close> the report is \<open>2 ^ 53\<close>, one less than the mean.
\<close>

lemma large_sum_not_nearest:
  "utilization 27021597764222979 3 = Inr 9007199254740992 \<and>
   round_half_even (27021597764222979 / 3) = 9007199254740993"
proof -
  have fl: "floor_log2 \<bar>9007199254740993\<bar> = 53"
    by code_simp
  have rh: "round_half_even (9007199254740993 / 2) = 4503599627370496"
    "round_half_even 9007199254740992 = 9007199254740992"
    "round_half_even (27021597764222979 / 3) = 9007199254740993"
    by code_simp+
  have pw: "\<not> (2 :: rat) powi 1024 \<le> 9007199254740992"
  proof -
    have "(2 :: rat) powi 1024 = 2 ^ 1024" by (simp add: power_int_def)
    moreover have "(9007199254740992 :: rat) < 2 ^ 54" by simp
    moreover have "(2 :: rat) ^ 54 \<le> 2 ^ 1024" by (intro power_increasing) auto
    ultimately show ?thesis by linarith
  qed
  have "truediv 27021597764222979 3 = Inr 9007199254740992"
    using fl rh(1) pw by (simp add: truediv_def binary64_def Let_def)
  then show ?thesis using rh by (simp add: utilization_def)
qed

end
